theory Spec2Isabelle
  imports Complex_Main "HOL-Library.Word"
begin

unbundle bit_operations_syntax

section \<open>The LDPC encoder client of \<^verbatim>\<open>src/main.cpp\<close>\<close>

text \<open>
  The client drives an external encoder over the second serial port. The embedding keeps
  the globals of the source in one record, the serial port as an explicit transport
  (a clock in milliseconds, the bytes the device sends with the time each reaches the
  receive buffer, and the bytes written so far), and every loop as a recursive function.
  Values of type \<^verbatim>\<open>uint16_t\<close> are stored as \<^typ>\<open>16 word\<close>; C computes on them
  in \<^verbatim>\<open>int\<close> (32 bits on the target, wide enough for every expression below) and
  truncates on assignment, which \<open>u16\<close> writes out.
\<close>

subsection \<open>Constants and enumerations\<close>

type_synonym byte = "8 word"

definition LDPC_TAG_0 :: byte where "LDPC_TAG_0 = 0xde"
definition LDPC_TAG_1 :: byte where "LDPC_TAG_1 = 0xad"
definition LDPC_TAG_2 :: byte where "LDPC_TAG_2 = 0xc0"
definition LDPC_TAG_3 :: byte where "LDPC_TAG_3 = 0xde"
definition MAX_MESSAGE_LENGTH :: nat where "MAX_MESSAGE_LENGTH = 1024"

datatype SystemState =
  STATE_IDLE | STATE_WAITING_FOR_TAG | STATE_WAITING_FOR_PARAMS | STATE_ENCODING
  | STATE_RECEIVING_RESULT

datatype InputMode = INPUT_TEXT | INPUT_HEX | INPUT_HEX_MANUAL

subsection \<open>The serial transport\<close>

text \<open>
  \<open>now\<close> is \<^verbatim>\<open>millis()\<close>; \<open>rx\<close> holds, in arrival order, the bytes the device sends,
  each with the time it reaches the receive buffer; \<open>tx\<close> is what has been written.
  Only \<^verbatim>\<open>delay\<close> advances the clock. The source only ever subtracts a start time
  taken earlier from \<^verbatim>\<open>millis()\<close>, so the 32-bit wrap of the counter plays no role
  and the clock is a natural number. Reads, writes and the messages printed on the USB
  port take no time, and the receive buffer of the port is taken to hold whatever has
  arrived.
\<close>

record transport =
  now :: nat
  rx :: "(nat \<times> byte) list"
  tx :: "byte list"

definition serial2_available :: "transport \<Rightarrow> nat" where
  "serial2_available t = length (takeWhile (\<lambda>p. fst p \<le> now t) (rx t))"

text \<open>\<^verbatim>\<open>Serial2.read()\<close> returns -1 on an empty buffer, which the casts turn into 255.\<close>

definition serial2_read :: "transport \<Rightarrow> byte \<times> transport" where
  "serial2_read t =
     (case rx t of
        [] \<Rightarrow> (0xff, t)
      | p # ps \<Rightarrow> if fst p \<le> now t then (snd p, t\<lparr>rx := ps\<rparr>) else (0xff, t))"

definition serial2_write :: "byte \<Rightarrow> transport \<Rightarrow> transport" where
  "serial2_write b t = t\<lparr>tx := tx t @ [b]\<rparr>"

definition delay :: "nat \<Rightarrow> transport \<Rightarrow> transport" where
  "delay ms t = t\<lparr>now := now t + ms\<rparr>"

subsection \<open>The globals\<close>

record globals =
  currentState :: SystemState
  inputMode :: InputMode
  K :: "16 word"
  N :: "16 word"
  message_bits :: "16 word"
  message_buffer :: "byte list"
  encoded_buffer :: "byte list"
  lastInputMode :: InputMode
  serial2 :: transport

text \<open>Assignment of an \<^verbatim>\<open>int\<close> value to a \<^verbatim>\<open>uint16_t\<close> variable.\<close>

definition u16 :: "nat \<Rightarrow> nat" where
  "u16 x = x mod 65536"

text \<open>The state at power-up: zeroed parameters and buffers of the declared sizes.\<close>

definition initial_globals :: "transport \<Rightarrow> globals" where
  "initial_globals t =
     \<lparr>currentState = STATE_IDLE, inputMode = INPUT_TEXT, K = 0, N = 0, message_bits = 0,
      message_buffer = replicate MAX_MESSAGE_LENGTH 0,
      encoded_buffer = replicate (MAX_MESSAGE_LENGTH * 2) 0,
      lastInputMode = INPUT_TEXT, serial2 = t\<rparr>"

subsection \<open>\<^verbatim>\<open>waitForTag\<close>\<close>

text \<open>
  The chain of comparisons of lines 97 to 121 on one received byte: \<open>None\<close> is the
  \<^verbatim>\<open>return true\<close> of the fourth branch, \<open>Some i\<close> the new value of
  \<^verbatim>\<open>tagIndex\<close>. The array \<^verbatim>\<open>tagBytes\<close> is written and never read.
\<close>

definition tag_step :: "nat \<Rightarrow> byte \<Rightarrow> nat option" where
  "tag_step tagIndex receivedByte =
     (if receivedByte = LDPC_TAG_0 \<and> tagIndex = 0 then Some 1
      else if receivedByte = LDPC_TAG_1 \<and> tagIndex = 1 then Some 2
      else if receivedByte = LDPC_TAG_2 \<and> tagIndex = 2 then Some 3
      else if receivedByte = LDPC_TAG_3 \<and> tagIndex = 3 then None
      else Some 0)"

lemma now_serial2_read [simp]: "now (snd (serial2_read t)) = now t"
  by (simp add: serial2_read_def split: list.split)

lemma now_delay [simp]: "now (delay ms t) = now t + ms"
  by (simp add: delay_def)

function waitForTag_loop :: "nat \<Rightarrow> nat \<Rightarrow> transport \<Rightarrow> bool \<times> transport" where
  "waitForTag_loop startTime tagIndex t =
     (if now t - startTime < 5000 then
        (if serial2_available t > 0 then
           (case tag_step tagIndex (fst (serial2_read t)) of
              None \<Rightarrow> (True, snd (serial2_read t))
            | Some i \<Rightarrow> waitForTag_loop startTime i (delay 1 (snd (serial2_read t))))
         else waitForTag_loop startTime tagIndex (delay 1 t))
      else (False, t))"
  by pat_completeness auto
termination
  by (relation "measure (\<lambda>(startTime, tagIndex, t). startTime + 5000 - now t)") auto

declare waitForTag_loop.simps [simp del]

definition waitForTag :: "globals \<Rightarrow> bool \<times> globals" where
  "waitForTag g =
     (let r = waitForTag_loop (now (serial2 g)) 0 (serial2 g)
      in (fst r, g\<lparr>serial2 := snd r\<rparr>))"

subsection \<open>\<^verbatim>\<open>sendMessageLength\<close>\<close>

definition sendMessageLength :: "16 word \<Rightarrow> globals \<Rightarrow> bool \<times> globals" where
  "sendMessageLength bits g =
     (let len_hi = (ucast (drop_bit 8 bits) :: byte);
          len_lo = (ucast (bits AND 0xFF) :: byte)
      in (True, g\<lparr>serial2 := delay 10 (serial2_write len_lo
                                (delay 10 (serial2_write len_hi (serial2 g))))\<rparr>))"

subsection \<open>\<^verbatim>\<open>receiveParameters\<close>\<close>

definition be16 :: "byte \<Rightarrow> byte \<Rightarrow> 16 word" where
  "be16 hi lo = push_bit 8 (ucast hi) OR ucast lo"

function receiveParameters_loop :: "nat \<Rightarrow> globals \<Rightarrow> bool \<times> globals" where
  "receiveParameters_loop startTime g =
     (if now (serial2 g) - startTime < 3000 then
        (if serial2_available (serial2 g) \<ge> 4 then
           (let r1 = serial2_read (serial2 g); k_hi = fst r1;
                r2 = serial2_read (snd r1); k_lo = fst r2;
                r3 = serial2_read (snd r2); n_hi = fst r3;
                r4 = serial2_read (snd r3); n_lo = fst r4
            in (True, g\<lparr>K := be16 k_hi k_lo, N := be16 n_hi n_lo, serial2 := snd r4\<rparr>))
         else receiveParameters_loop startTime (g\<lparr>serial2 := delay 10 (serial2 g)\<rparr>))
      else (False, g))"
  by pat_completeness auto
termination
  by (relation "measure (\<lambda>(startTime, g). startTime + 3000 - now (serial2 g))") auto

declare receiveParameters_loop.simps [simp del]

definition receiveParameters :: "globals \<Rightarrow> bool \<times> globals" where
  "receiveParameters g = receiveParameters_loop (now (serial2 g)) g"

subsection \<open>\<^verbatim>\<open>sendMessageData\<close>\<close>

text \<open>
  The source returns \<^verbatim>\<open>true\<close> or \<^verbatim>\<open>false\<close> and prints the number of the block
  that timed out; the model returns that number with the failure. Three behaviours of the
  C code are undefined and are results of their own: the division by \<open>K = 0\<close> of
  line 175, a read of \<^verbatim>\<open>data\<close> outside the buffer it points to (line 188), and a
  write outside \<^verbatim>\<open>encoded_buffer\<close> (line 204).
\<close>

datatype transfer_result =
  Transferred
  | BlockTimeout nat
  | DivideByZero
  | ReadPastMessageBuffer nat
  | WritePastEncodedBuffer nat

text \<open>The \<^verbatim>\<open>int\<close> expression \<^verbatim>\<open>(bits + K - 1) / K\<close> of lines 175, 355, 356 and 427.\<close>

definition blocks_of :: "16 word \<Rightarrow> 16 word \<Rightarrow> nat" where
  "blocks_of bits k = (unat bits + unat k - 1) div unat k"

text \<open>The \<^verbatim>\<open>int\<close> expression \<^verbatim>\<open>(x + 7) / 8\<close>.\<close>

definition bytes_of :: "16 word \<Rightarrow> nat" where
  "bytes_of x = (unat x + 7) div 8"

text \<open>The inner loop of lines 185 to 191, from offset \<open>i\<close>.\<close>

function sendBlockBytes ::
  "byte list \<Rightarrow> 16 word \<Rightarrow> nat \<Rightarrow> nat \<Rightarrow> nat \<Rightarrow> globals \<Rightarrow> transfer_result option \<times> globals"
where
  "sendBlockBytes data messageBits block K_bytes i g =
     (if i < K_bytes then
        (let dataIndex = u16 (block * K_bytes + i) in
         if dataIndex < bytes_of messageBits then
           (if dataIndex < length data then
              sendBlockBytes data messageBits block K_bytes (i + 1)
                (g\<lparr>serial2 := delay 10 (serial2_write (data ! dataIndex) (serial2 g))\<rparr>)
            else (Some (ReadPastMessageBuffer dataIndex), g))
         else
           sendBlockBytes data messageBits block K_bytes (i + 1)
             (g\<lparr>serial2 := delay 10 (serial2_write 0 (serial2 g))\<rparr>))
      else (None, g))"
  by pat_completeness auto
termination
  by (relation "measure (\<lambda>(data, messageBits, block, K_bytes, i, g). K_bytes - i)") auto

declare sendBlockBytes.simps [simp del]

text \<open>The wait of lines 200 to 208; the result carries \<^verbatim>\<open>receivedBytes\<close>.\<close>

function receiveBlock ::
  "nat \<Rightarrow> nat \<Rightarrow> nat \<Rightarrow> nat \<Rightarrow> globals \<Rightarrow> transfer_result option \<times> nat \<times> globals"
where
  "receiveBlock startTime block N_bytes receivedBytes g =
     (if receivedBytes < N_bytes \<and> now (serial2 g) - startTime < 3000 then
        (if serial2_available (serial2 g) > 0 then
           (let idx = block * N_bytes + receivedBytes in
            if idx < length (encoded_buffer g) then
              receiveBlock startTime block N_bytes (receivedBytes + 1)
                (g\<lparr>encoded_buffer := (encoded_buffer g)[idx := fst (serial2_read (serial2 g))],
                   serial2 := delay 1 (snd (serial2_read (serial2 g)))\<rparr>)
            else (Some (WritePastEncodedBuffer idx), receivedBytes, g))
         else receiveBlock startTime block N_bytes receivedBytes
                (g\<lparr>serial2 := delay 1 (serial2 g)\<rparr>))
      else (None, receivedBytes, g))"
  by pat_completeness auto
termination
  by (relation "measure (\<lambda>(startTime, block, N_bytes, receivedBytes, g).
                  startTime + 3000 - now (serial2 g))") auto

declare receiveBlock.simps [simp del]

text \<open>The loop over the blocks, lines 180 to 217, from block \<open>block\<close>.\<close>

function sendBlocks ::
  "byte list \<Rightarrow> 16 word \<Rightarrow> nat \<Rightarrow> nat \<Rightarrow> nat \<Rightarrow> globals \<Rightarrow> transfer_result \<times> globals"
where
  "sendBlocks data messageBits K_bytes C block g =
     (if block < C then
        (let s = sendBlockBytes data messageBits block K_bytes 0 g in
         case fst s of
           Some ub \<Rightarrow> (ub, snd s)
         | None \<Rightarrow>
            (let N_bytes = u16 (bytes_of (N (snd s)));
                 r = receiveBlock (now (serial2 (snd s))) block N_bytes 0 (snd s);
                 receivedBytes = fst (snd r)
             in case fst r of
                  Some ub \<Rightarrow> (ub, snd (snd r))
                | None \<Rightarrow>
                    if receivedBytes < N_bytes then (BlockTimeout block, snd (snd r))
                    else sendBlocks data messageBits K_bytes C (block + 1) (snd (snd r))))
      else (Transferred, g))"
  by pat_completeness auto
termination
  by (relation "measure (\<lambda>(data, messageBits, K_bytes, C, block, g). C - block)") auto

declare sendBlocks.simps [simp del]

definition sendMessageData ::
  "byte list \<Rightarrow> 16 word \<Rightarrow> 16 word \<Rightarrow> globals \<Rightarrow> transfer_result \<times> globals"
where
  "sendMessageData data messageBits calculationBits g =
     (let K_bytes = u16 (bytes_of (K g));
          bitsForCalculation = (if calculationBits > 0 then calculationBits else messageBits)
      in if K g = 0 then (DivideByZero, g)
         else sendBlocks data messageBits K_bytes (u16 (blocks_of bitsForCalculation (K g))) 0 g)"

subsection \<open>\<^verbatim>\<open>handleEncoding\<close> and the redisplay of \<^verbatim>\<open>loop\<close>\<close>

text \<open>
  The dialogue on the USB serial port and the two codecs \<^verbatim>\<open>textToBits\<close> and
  \<^verbatim>\<open>hexToBits\<close> are outside the protocol: a request carries the mode, the value
  read for \<^verbatim>\<open>manual_message_bits\<close>, the line \<open>userInput\<close> as it is after
  \<^verbatim>\<open>trim()\<close>, and the bytes \<open>msg\<close> the codec stores for that line at the front of
  \<^verbatim>\<open>message_buffer\<close>, whose count times eight it returns. The codecs store at most
  \<^verbatim>\<open>MAX_MESSAGE_LENGTH\<close> bytes (one less for text). An empty line ends
  \<^verbatim>\<open>handleEncoding\<close> at line 294, after the mode has been recorded and before
  anything is converted or sent. The result names that return or the phase that failed,
  or carries the two numbers the completion display prints: the block count of line 355
  and \<^verbatim>\<open>totalEncodedBytes\<close> of line 356.
\<close>

datatype session_result =
  NoMessage
  | TagFailed
  | LengthFailed
  | ParametersFailed
  | DataFailed transfer_result
  | Completed nat nat

definition totalEncodedBytes :: "16 word \<Rightarrow> 16 word \<Rightarrow> 16 word \<Rightarrow> nat" where
  "totalEncodedBytes bits k n = u16 (blocks_of bits k * bytes_of n)"

definition handleEncoding ::
  "InputMode \<Rightarrow> 16 word \<Rightarrow> string \<Rightarrow> byte list \<Rightarrow> globals \<Rightarrow> session_result \<times> globals"
where
  "handleEncoding mode manual_message_bits userInput msg g =
     (let g0 = g\<lparr>lastInputMode := mode\<rparr>
      in if length userInput = 0 then (NoMessage, g0)
         else
          (let g1 = g0\<lparr>message_bits := of_nat (length msg * 8),
                       message_buffer := msg @ drop (length msg) (message_buffer g0)\<rparr>;
               w = waitForTag g1
           in if \<not> fst w then (TagFailed, snd w)
              else
               (let l = sendMessageLength
                          (if mode = INPUT_HEX_MANUAL then manual_message_bits
                           else message_bits (snd w)) (snd w)
                in if \<not> fst l then (LengthFailed, snd l)
                   else
                    (let p = receiveParameters (snd l)
                     in if \<not> fst p then (ParametersFailed, snd p)
                        else
                         (let g4 = snd p;
                              bitsUsedForCalculation =
                                (if mode = INPUT_HEX_MANUAL then manual_message_bits
                                 else message_bits g4);
                              d = sendMessageData (message_buffer g4) (message_bits g4)
                                    (if mode = INPUT_HEX_MANUAL then manual_message_bits else 0)
                                    g4
                          in if fst d \<noteq> Transferred then (DataFailed (fst d), snd d)
                             else (Completed (blocks_of bitsUsedForCalculation (K (snd d)))
                                     (totalEncodedBytes bitsUsedForCalculation (K (snd d))
                                        (N (snd d))),
                                   snd d))))))"

text \<open>
  Menu option 5 of \<^verbatim>\<open>loop\<close> (lines 419 to 434): the number of encoded bytes it prints,
  or \<open>None\<close> when it prints that no results are available.
\<close>

definition showLastResults :: "globals \<Rightarrow> nat option" where
  "showLastResults g =
     (if K g > 0 \<and> N g > 0 \<and> message_bits g > 0
      then Some (totalEncodedBytes (message_bits g) (K g) (N g))
      else None)"

subsection \<open>Notions of the specification\<close>

text \<open>
  The payload of a block as the specification words it: byte \<open>i\<close> of block \<open>block\<close>
  is the message byte at index \<open>block * K_bytes + i\<close> when that index lies below the
  message's byte length, and zero otherwise.
\<close>

definition block_byte :: "byte list \<Rightarrow> 16 word \<Rightarrow> nat \<Rightarrow> nat \<Rightarrow> nat \<Rightarrow> byte" where
  "block_byte data messageBits K_bytes block i =
     (if block * K_bytes + i < bytes_of messageBits then data ! (block * K_bytes + i) else 0)"

definition block_payload :: "byte list \<Rightarrow> 16 word \<Rightarrow> nat \<Rightarrow> nat \<Rightarrow> byte list" where
  "block_payload data messageBits K_bytes block =
     map (block_byte data messageBits K_bytes block) [0..<K_bytes]"

text \<open>
  The tag and the cursor of the specification: a byte equal to the tag byte at the cursor
  advances it by one, any other byte resets it to zero, and 4 means that the whole tag
  has been seen.
\<close>

definition tag :: "byte list" where
  "tag = [LDPC_TAG_0, LDPC_TAG_1, LDPC_TAG_2, LDPC_TAG_3]"

definition cursor_step :: "nat \<Rightarrow> byte \<Rightarrow> nat" where
  "cursor_step c b = (if c < 4 \<and> b = tag ! c then c + 1 else 0)"

text \<open>Four bytes have reached the receive buffer by the time \<open>T\<close>.\<close>

definition ready_at :: "nat \<Rightarrow> transport \<Rightarrow> bool" where
  "ready_at T t = (4 \<le> length (takeWhile (\<lambda>p. fst p \<le> T) (rx t)))"

subsection \<open>Example sessions\<close>

text \<open>A device whose bytes \<open>bs\<close> arrive at the times paired with them.\<close>

definition device :: "(nat \<times> byte) list \<Rightarrow> transport" where
  "device bs = \<lparr>now = 0, rx = bs, tx = []\<rparr>"

definition padding_example :: globals where
  "padding_example =
     (initial_globals (device [(0, 0x5A)]))
       \<lparr>K := 16, N := 8, message_bits := 8, message_buffer := 0x41 # replicate 1023 0\<rparr>"


definition manual_example :: globals where
  "manual_example =
     initial_globals (device [(0, 0xDE), (0, 0xAD), (0, 0xC0), (0, 0xDE),
                              (0, 0x00), (0, 0x08), (0, 0x00), (0, 0x10),
                              (0, 0x01), (0, 0x02), (0, 0x03), (0, 0x04)])"

definition zero_parameters_example :: globals where
  "zero_parameters_example =
     initial_globals (device [(0, 0xDE), (0, 0xAD), (0, 0xC0), (0, 0xDE),
                              (0, 0x00), (0, 0x00), (0, 0x00), (0, 0x00)])"

definition overflow_example :: globals where
  "overflow_example =
     (initial_globals (device (replicate 2049 (0, 0xAA))))
       \<lparr>K := 8, N := 16392, message_bits := 8, message_buffer := 0x41 # replicate 1023 0\<rparr>"

definition parameters_example :: globals where
  "parameters_example =
     initial_globals (device [(0, 0x10), (0, 0x00), (0, 0x20), (0, 0x00), (0, 0x99)])"

definition near_miss_example :: globals where
  "near_miss_example =
     initial_globals (device [(0, 0xDE), (0, 0xDE), (0, 0xAD), (0, 0xC0), (0, 0xDE)])"

definition tag_example :: globals where
  "tag_example = initial_globals (device [(0, 0xDE), (0, 0xAD), (0, 0xC0), (0, 0xDE)])"

definition manual_zero_example :: globals where
  "manual_zero_example =
     initial_globals (device [(0, 0xDE), (0, 0xAD), (0, 0xC0), (0, 0xDE),
                              (0, 0x00), (0, 0x08), (0, 0x00), (0, 0x10),
                              (0, 0x01), (0, 0x02)])"

definition late_parameters_example :: globals where
  "late_parameters_example =
     initial_globals (device [(0, 0x10), (0, 0x00), (0, 0x20), (2995, 0x00)])"

definition silent_example :: globals where
  "silent_example = initial_globals (device [])"

section \<open>Properties of the model\<close>

subsection \<open>The transport\<close>

lemma available_pos_iff:
  "0 < serial2_available t \<longleftrightarrow> (\<exists>p ps. rx t = p # ps \<and> fst p \<le> now t)"
  by (cases "rx t") (auto simp: serial2_available_def)

lemma read_available:
  "rx t = p # ps \<Longrightarrow> fst p \<le> now t \<Longrightarrow> serial2_read t = (snd p, t\<lparr>rx := ps\<rparr>)"
  by (simp add: serial2_read_def)

lemma tx_delay [simp]: "tx (delay ms t) = tx t"
  by (simp add: delay_def)

lemma rx_delay [simp]: "rx (delay ms t) = rx t"
  by (simp add: delay_def)

lemma tx_serial2_read [simp]: "tx (snd (serial2_read t)) = tx t"
  by (simp add: serial2_read_def split: list.split)

lemma now_serial2_write [simp]: "now (serial2_write b t) = now t"
  by (simp add: serial2_write_def)

lemma rx_serial2_write [simp]: "rx (serial2_write b t) = rx t"
  by (simp add: serial2_write_def)

lemma tx_serial2_write [simp]: "tx (serial2_write b t) = tx t @ [b]"
  by (simp add: serial2_write_def)

subsection \<open>Arithmetic of the 16-bit quantities\<close>

lemma ceil_div_nat:
  assumes "0 < (k::nat)"
  shows "nat \<lceil>real b / real k\<rceil> = (b + k - 1) div k"
proof -
  let ?z = "(b + k - 1) div k"
  have "?z * k + (b + k - 1) mod k = b + k - 1" by simp
  moreover have "(b + k - 1) mod k < k" using assms by simp
  ultimately have lo: "b \<le> ?z * k" and hi: "?z * k < b + k"
    using assms by linarith+
  from lo have "real b \<le> real (?z * k)" by (simp only: of_nat_le_iff)
  then have up: "real b / real k \<le> real ?z"
    using assms by (simp add: pos_divide_le_eq)
  from hi have "real (?z * k) < real (b + k)" by (simp only: of_nat_less_iff)
  then have "(real ?z - 1) * real k < real b" by (simp add: algebra_simps)
  then have low: "real ?z - 1 < real b / real k"
    using assms by (simp add: pos_less_divide_eq)
  have "\<lceil>real b / real k\<rceil> = int ?z"
    by (rule ceiling_unique) (use up low in simp_all)
  then show ?thesis by simp
qed

lemma no_wrap_nat:
  fixes b k :: nat
  assumes "0 < k" "k < 65536" "b < 65536"
  shows "((b + k - 1) div k) * ((k + 7) div 8) \<le> 65536"
proof -
  let ?C = "(b + k - 1) div k" and ?kb = "(k + 7) div 8"
  have Ck: "?C * k \<le> b + k - 1" by simp
  have kb8: "8 * ?kb \<le> k + 7" by simp
  show ?thesis
  proof (cases "k \<le> 8")
    case True
    then have "?kb \<le> 1" using assms(1) by simp
    moreover have "?C \<le> b + k - 1" by (rule div_le_dividend)
    moreover have "?C \<le> b"
    proof -
      have "b \<le> b * k" using assms(1) by simp
      moreover have "(b + 1) * k = b * k + k" by simp
      ultimately have "b + k - 1 < (b + 1) * k" using assms(1) by linarith
      then have "?C < b + 1" by (rule less_mult_imp_div_less)
      then show ?thesis by simp
    qed
    ultimately have "?C * ?kb \<le> b * 1" by (intro mult_le_mono) simp_all
    with assms show ?thesis by simp
  next
    case False
    then have "7 * ?C \<le> ?C * k" by simp
    with Ck have c7: "7 * ?C \<le> b + k - 1" by linarith
    have "8 * (?C * ?kb) = ?C * (8 * ?kb)" by simp
    also have "\<dots> \<le> ?C * (k + 7)" using kb8 by (rule mult_le_mono2)
    also have "\<dots> = ?C * k + 7 * ?C" by (simp add: algebra_simps)
    also have "\<dots> \<le> (b + k - 1) + (b + k - 1)" using Ck c7 by linarith
    finally show ?thesis using assms by simp
  qed
qed

lemma unat16_lt: "unat (x :: 16 word) < 65536"
  using unsigned_less[of x, where 'a = nat] by simp

lemma bytes_of_le: "bytes_of x \<le> 8192"
  using unat16_lt[of x] by (simp add: bytes_of_def)

lemma u16_bytes_of: "u16 (bytes_of x) = bytes_of x"
  using bytes_of_le[of x] by (simp add: u16_def)

lemma blocks_of_le:
  assumes "k \<noteq> 0"
  shows "blocks_of bits k \<le> unat bits"
proof -
  from assms have k: "0 < unat k" by (simp add: unat_gt_0)
  then have "unat bits \<le> unat bits * unat k" by simp
  moreover have "(unat bits + 1) * unat k = unat bits * unat k + unat k" by simp
  ultimately have "unat bits + unat k - 1 < (unat bits + 1) * unat k"
    using k by linarith
  then have "(unat bits + unat k - 1) div unat k < unat bits + 1"
    by (rule less_mult_imp_div_less)
  then show ?thesis by (simp add: blocks_of_def)
qed

lemma u16_blocks_of: "k \<noteq> 0 \<Longrightarrow> u16 (blocks_of bits k) = blocks_of bits k"
  using blocks_of_le[of k bits] unat16_lt[of bits] by (simp add: u16_def)

lemma blocks_of_ceiling:
  "k \<noteq> 0 \<Longrightarrow> blocks_of bits k = nat \<lceil>real (unat bits) / real (unat k)\<rceil>"
  unfolding blocks_of_def by (rule ceil_div_nat[symmetric]) (simp add: unat_gt_0)

lemma bytes_of_ceiling: "bytes_of x = nat \<lceil>real (unat x) / 8\<rceil>"
proof -
  have "nat \<lceil>real (unat x) / real (8::nat)\<rceil> = (unat x + 8 - 1) div 8"
    by (rule ceil_div_nat) simp
  then show ?thesis by (simp add: bytes_of_def)
qed

lemma transfer_no_wrap:
  assumes "k \<noteq> 0"
  shows "blocks_of bits k * bytes_of k \<le> 65536"
  unfolding blocks_of_def bytes_of_def
  using assms by (intro no_wrap_nat unat16_lt) (simp add: unat_gt_0)

lemma be16_add: "be16 hi lo = push_bit 8 (ucast hi) + ucast lo"
  unfolding be16_def
  by (rule disjunctive_add[symmetric]) (auto simp: bit_simps dest: bit_imp_le_length)

lemma unat_be16: "unat (be16 hi lo) = 256 * unat hi + unat lo"
proof -
  have hi: "unat hi < 256" and lo: "unat lo < 256"
    using unsigned_less[of hi, where 'a = nat] unsigned_less[of lo, where 'a = nat] by simp_all
  have a: "unat (push_bit 8 (ucast hi :: 16 word)) = 256 * unat hi"
    using hi by (simp add: push_bit_eq_mult unat_word_ariths unsigned_ucast_eq take_bit_nat_eq_self)
  have b: "unat (ucast lo :: 16 word) = unat lo"
    using lo by (simp add: unsigned_ucast_eq take_bit_nat_eq_self)
  have "unat (be16 hi lo) = (256 * unat hi + unat lo) mod 65536"
    unfolding be16_add by (simp add: unat_word_ariths a b)
  with hi lo show ?thesis by simp
qed

subsection \<open>The loop of the sync detection\<close>

lemma tag_step_cursor:
  assumes "idx < 4"
  shows "tag_step idx b =
           (if cursor_step idx b = 4 then None else Some (cursor_step idx b))"
proof -
  from assms consider "idx = 0" | "idx = 1" | "idx = 2" | "idx = 3" by linarith
  then show ?thesis
    by cases
      (simp_all add: tag_step_def cursor_step_def tag_def LDPC_TAG_0_def LDPC_TAG_1_def
         LDPC_TAG_2_def LDPC_TAG_3_def)
qed

lemma cursor_step_le: "cursor_step c b \<le> 4"
  by (simp add: cursor_step_def)

lemma waitForTag_loop_inv:
  assumes "waitForTag_loop s idx t = (r, t')" and "idx < 4"
  shows "\<exists>n. n \<le> length (rx t) \<and> rx t' = drop n (rx t) \<and> tx t' = tx t \<and>
             now t \<le> now t' \<and>
             r = (foldl cursor_step idx (map snd (take n (rx t))) = 4) \<and>
             (if r then now t' - s < 5000 else 5000 \<le> now t' - s)"
  using assms
proof (induction s idx t rule: waitForTag_loop.induct)
  case (1 s idx t)
  note prem = "1.prems"(1)[unfolded waitForTag_loop.simps[of s idx t]]
  show ?case
  proof (cases "now t - s < 5000")
    case False
    with prem have "r = False" "t' = t" by simp_all
    with False "1.prems"(2) show ?thesis
      by (intro exI[of _ 0]) simp
  next
    case go: True
    show ?thesis
    proof (cases "0 < serial2_available t")
      case False
      with go prem have rec: "waitForTag_loop s idx (delay 1 t) = (r, t')" by simp
      from "1.IH"(2)[OF go False rec "1.prems"(2)] show ?thesis
        by (auto simp: delay_def)
    next
      case av: True
      then obtain p ps where rx: "rx t = p # ps" and due: "fst p \<le> now t"
        by (auto simp: available_pos_iff)
      have rd: "serial2_read t = (snd p, t\<lparr>rx := ps\<rparr>)"
        using rx due by (rule read_available)
      note ts = tag_step_cursor[OF "1.prems"(2), of "snd p"]
      show ?thesis
      proof (cases "cursor_step idx (snd p) = 4")
        case True
        with ts go av prem rd have "r = True" "t' = t\<lparr>rx := ps\<rparr>" by simp_all
        with True go show ?thesis
          by (intro exI[of _ 1]) (simp add: rx)
      next
        case False
        with cursor_step_le[of idx "snd p"] have lt: "cursor_step idx (snd p) < 4" by simp
        from False ts have some: "tag_step idx (fst (serial2_read t)) = Some (cursor_step idx (snd p))"
          by (simp add: rd)
        with go av prem rd have
          rec: "waitForTag_loop s (cursor_step idx (snd p)) (delay 1 (snd (serial2_read t))) = (r, t')"
          by simp
        from "1.IH"(1)[OF go av some rec lt] obtain n where
          n: "n \<le> length ps" "rx t' = drop n ps" "tx t' = tx t" "now t \<le> now t'"
            "r = (foldl cursor_step (cursor_step idx (snd p)) (map snd (take n ps)) = 4)"
            "if r then now t' - s < 5000 else 5000 \<le> now t' - s"
          by (auto simp: rd)
        then show ?thesis
          by (intro exI[of _ "Suc n"]) (simp add: rx)
      qed
    qed
  qed
qed

lemma cursor_run_suffix:
  "\<exists>pre. xs = pre @ take c tag \<Longrightarrow>
   \<exists>pre. xs @ bs = pre @ take (foldl cursor_step c bs) tag"
proof (induction bs arbitrary: c xs)
  case Nil
  then show ?case by simp
next
  case (Cons b bs)
  have "\<exists>pre. xs @ [b] = pre @ take (cursor_step c b) tag"
  proof (cases "c < 4 \<and> b = tag ! c")
    case True
    have len: "length tag = 4" by (simp add: tag_def)
    from Cons.prems obtain pre where "xs = pre @ take c tag" by blast
    with True len have "xs @ [b] = pre @ take (Suc c) tag"
      by (simp add: take_Suc_conv_app_nth)
    with True show ?thesis by (auto simp: cursor_step_def)
  next
    case False
    then have "cursor_step c b = 0" by (auto simp: cursor_step_def)
    then show ?thesis by simp
  qed
  from Cons.IH[OF this] show ?case by simp
qed

lemma cursor_run_accepts:
  assumes "foldl cursor_step 0 bs = 4"
  shows "\<exists>pre. bs = pre @ tag"
proof -
  have "\<exists>pre. [] @ bs = pre @ take (foldl cursor_step 0 bs) tag"
    by (rule cursor_run_suffix) simp
  with assms show ?thesis by (simp add: tag_def)
qed

lemma near_miss_rejected:
  assumes "map snd (rx t) = [0xDE, 0xDE, 0xAD, 0xC0, 0xDE]"
  shows "\<not> fst (waitForTag_loop s 0 t)"
proof
  assume acc: "fst (waitForTag_loop s 0 t)"
  then have eq: "waitForTag_loop s 0 t = (True, snd (waitForTag_loop s 0 t))"
    by (simp add: prod_eq_iff)
  from waitForTag_loop_inv[OF eq] obtain n where
    n: "n \<le> length (rx t)"
    and run: "foldl cursor_step 0 (map snd (take n (rx t))) = 4"
    by auto
  have "length (map snd (rx t)) = 5" by (simp only: assms) simp
  then have "length (rx t) = 5" by simp
  with n consider "n = 0" | "n = 1" | "n = 2" | "n = 3" | "n = 4" | "n = 5" by linarith
  moreover from run have
    "foldl cursor_step 0 (take n [0xDE, 0xDE, 0xAD, 0xC0, 0xDE]) = 4"
    by (simp only: take_map[symmetric] assms)
  ultimately show False
    by cases
      (simp_all add: cursor_step_def tag_def LDPC_TAG_0_def LDPC_TAG_1_def
         LDPC_TAG_2_def LDPC_TAG_3_def)
qed

subsection \<open>The loop of the parameter reception\<close>

lemma takeWhile_length_mono:
  assumes "\<And>x. P x \<Longrightarrow> Q x"
  shows "length (takeWhile P xs) \<le> length (takeWhile Q xs)"
  using assms by (induction xs) auto

lemma ready_at_mono: "T \<le> T' \<Longrightarrow> ready_at T t \<Longrightarrow> ready_at T' t"
  unfolding ready_at_def
  using takeWhile_length_mono[of "\<lambda>p. fst p \<le> T" "\<lambda>p. fst p \<le> T'" "rx t"]
  by simp

lemma available_ready: "4 \<le> serial2_available t \<longleftrightarrow> ready_at (now t) t"
  by (simp add: serial2_available_def ready_at_def)

lemma ready_at_delay [simp]: "ready_at T (delay ms t) = ready_at T t"
  by (simp add: ready_at_def)

lemma four_available:
  assumes "4 \<le> serial2_available t"
  shows "\<exists>p0 p1 p2 p3 rest. rx t = p0 # p1 # p2 # p3 # rest \<and>
           fst p0 \<le> now t \<and> fst p1 \<le> now t \<and> fst p2 \<le> now t \<and> fst p3 \<le> now t"
proof -
  let ?P = "\<lambda>p. fst p \<le> now t"
  from assms have l: "4 \<le> length (takeWhile ?P (rx t))"
    by (simp add: serial2_available_def)
  obtain p0 r0 where r0: "rx t = p0 # r0" and d0: "?P p0"
    using l by (cases "rx t") (auto split: if_splits)
  obtain p1 r1 where r1: "r0 = p1 # r1" and d1: "?P p1"
    using l r0 d0 by (cases r0) (auto split: if_splits)
  obtain p2 r2 where r2: "r1 = p2 # r2" and d2: "?P p2"
    using l r0 d0 r1 d1 by (cases r1) (auto split: if_splits)
  obtain p3 r3 where r3: "r2 = p3 # r3" and d3: "?P p3"
    using l r0 d0 r1 d1 r2 d2 by (cases r2) (auto split: if_splits)
  from r0 r1 r2 r3 d0 d1 d2 d3 show ?thesis by blast
qed

lemma receiveParameters_read:
  assumes "4 \<le> serial2_available (serial2 g)" and "now (serial2 g) - s < 3000"
  shows "receiveParameters_loop s g =
           (True, g\<lparr>K := be16 (snd (rx (serial2 g) ! 0)) (snd (rx (serial2 g) ! 1)),
                    N := be16 (snd (rx (serial2 g) ! 2)) (snd (rx (serial2 g) ! 3)),
                    serial2 := (serial2 g)\<lparr>rx := drop 4 (rx (serial2 g))\<rparr>\<rparr>)"
proof -
  from four_available[OF assms(1)] obtain p0 p1 p2 p3 rest where
    rx: "rx (serial2 g) = p0 # p1 # p2 # p3 # rest"
    and due: "fst p0 \<le> now (serial2 g)" "fst p1 \<le> now (serial2 g)"
      "fst p2 \<le> now (serial2 g)" "fst p3 \<le> now (serial2 g)"
    by blast
  show ?thesis
    using assms due
    by (subst receiveParameters_loop.simps) (simp add: Let_def serial2_read_def rx)
qed

lemma receiveParameters_loop_success:
  assumes "ready_at (now (serial2 g) + 10 * j) (serial2 g)"
    and "now (serial2 g) + 10 * j < s + 3000"
  shows "\<exists>T. T \<le> now (serial2 g) + 10 * j \<and>
           receiveParameters_loop s g =
           (True, g\<lparr>K := be16 (snd (rx (serial2 g) ! 0)) (snd (rx (serial2 g) ! 1)),
                    N := be16 (snd (rx (serial2 g) ! 2)) (snd (rx (serial2 g) ! 3)),
                    serial2 := (serial2 g)\<lparr>now := T, rx := drop 4 (rx (serial2 g))\<rparr>\<rparr>)"
  using assms
proof (induction j arbitrary: g)
  case 0
  then have "4 \<le> serial2_available (serial2 g)" "now (serial2 g) - s < 3000"
    by (simp_all add: available_ready)
  from receiveParameters_read[OF this] show ?case
    by (intro exI[of _ "now (serial2 g)"]) simp
next
  case (Suc j)
  from Suc.prems(2) have el: "now (serial2 g) - s < 3000" by simp
  show ?case
  proof (cases "4 \<le> serial2_available (serial2 g)")
    case True
    from receiveParameters_read[OF True el] show ?thesis
      by (intro exI[of _ "now (serial2 g)"]) simp
  next
    case False
    let ?g1 = "g\<lparr>serial2 := delay 10 (serial2 g)\<rparr>"
    from False el have unf: "receiveParameters_loop s g = receiveParameters_loop s ?g1"
      by (subst receiveParameters_loop.simps) simp
    have "\<exists>T. T \<le> now (serial2 ?g1) + 10 * j \<and>
           receiveParameters_loop s ?g1 =
           (True, ?g1\<lparr>K := be16 (snd (rx (serial2 ?g1) ! 0)) (snd (rx (serial2 ?g1) ! 1)),
                    N := be16 (snd (rx (serial2 ?g1) ! 2)) (snd (rx (serial2 ?g1) ! 3)),
                    serial2 := (serial2 ?g1)\<lparr>now := T, rx := drop 4 (rx (serial2 ?g1))\<rparr>\<rparr>)"
      by (rule Suc.IH) (use Suc.prems in \<open>simp_all add: add.assoc\<close>)
    then obtain T where T: "T \<le> now (serial2 ?g1) + 10 * j"
      and eq: "receiveParameters_loop s ?g1 =
           (True, ?g1\<lparr>K := be16 (snd (rx (serial2 ?g1) ! 0)) (snd (rx (serial2 ?g1) ! 1)),
                    N := be16 (snd (rx (serial2 ?g1) ! 2)) (snd (rx (serial2 ?g1) ! 3)),
                    serial2 := (serial2 ?g1)\<lparr>now := T, rx := drop 4 (rx (serial2 ?g1))\<rparr>\<rparr>)"
      by blast
    have same: "?g1\<lparr>K := be16 (snd (rx (serial2 ?g1) ! 0)) (snd (rx (serial2 ?g1) ! 1)),
                    N := be16 (snd (rx (serial2 ?g1) ! 2)) (snd (rx (serial2 ?g1) ! 3)),
                    serial2 := (serial2 ?g1)\<lparr>now := T, rx := drop 4 (rx (serial2 ?g1))\<rparr>\<rparr> =
          g\<lparr>K := be16 (snd (rx (serial2 g) ! 0)) (snd (rx (serial2 g) ! 1)),
                    N := be16 (snd (rx (serial2 g) ! 2)) (snd (rx (serial2 g) ! 3)),
                    serial2 := (serial2 g)\<lparr>now := T, rx := drop 4 (rx (serial2 g))\<rparr>\<rparr>"
      by (simp add: delay_def)
    from T have T': "T \<le> now (serial2 g) + 10 * Suc j" by simp
    show ?thesis
      by (rule exI[of _ T]) (simp only: T' unf eq same simp_thms)
  qed
qed

lemma receiveParameters_loop_timeout:
  assumes "\<not> ready_at (s + 2990) (serial2 g)" and "s \<le> now (serial2 g)"
    and "(now (serial2 g) - s) mod 10 = 0"
  shows "\<exists>T. s + 3000 \<le> T \<and>
           receiveParameters_loop s g = (False, g\<lparr>serial2 := (serial2 g)\<lparr>now := T\<rparr>\<rparr>)"
  using assms
proof (induction s g rule: receiveParameters_loop.induct)
  case (1 s g)
  show ?case
  proof (cases "now (serial2 g) - s < 3000")
    case False
    then have "receiveParameters_loop s g = (False, g)"
      by (subst receiveParameters_loop.simps) simp
    with False "1.prems"(2) show ?thesis
      by (intro exI[of _ "now (serial2 g)"]) simp
  next
    case True
    with "1.prems"(3) have "now (serial2 g) - s \<le> 2990" by presburger
    with "1.prems"(2) have "now (serial2 g) \<le> s + 2990" by simp
    with "1.prems"(1) have "\<not> ready_at (now (serial2 g)) (serial2 g)"
      using ready_at_mono by blast
    then have nav: "\<not> 4 \<le> serial2_available (serial2 g)"
      by (simp add: available_ready)
    let ?g1 = "g\<lparr>serial2 := delay 10 (serial2 g)\<rparr>"
    from True nav have unf: "receiveParameters_loop s g = receiveParameters_loop s ?g1"
      by (subst receiveParameters_loop.simps) simp
    have "\<exists>T. s + 3000 \<le> T \<and>
           receiveParameters_loop s ?g1 = (False, ?g1\<lparr>serial2 := (serial2 ?g1)\<lparr>now := T\<rparr>\<rparr>)"
    proof (rule "1.IH"[OF True nav])
      show "\<not> ready_at (s + 2990) (serial2 ?g1)" using "1.prems"(1) by simp
      show "s \<le> now (serial2 ?g1)" using "1.prems"(2) by simp
      show "(now (serial2 ?g1) - s) mod 10 = 0" using "1.prems"(2,3) by (simp add: mod_simps) presburger
    qed
    with unf show ?thesis by (auto simp: delay_def)
  qed
qed

lemma receiveParameters_loop_frame:
  "snd (receiveParameters_loop s g) =
     g\<lparr>K := K (snd (receiveParameters_loop s g)), N := N (snd (receiveParameters_loop s g)),
       serial2 := serial2 (snd (receiveParameters_loop s g))\<rparr>"
proof (induction s g rule: receiveParameters_loop.induct)
  case (1 s g)
  show ?case
  proof (cases "now (serial2 g) - s < 3000 \<and> \<not> 4 \<le> serial2_available (serial2 g)")
    case True
    let ?g1 = "g\<lparr>serial2 := delay 10 (serial2 g)\<rparr>"
    from True have unf: "receiveParameters_loop s g = receiveParameters_loop s ?g1"
      by (subst receiveParameters_loop.simps) simp
    from True have "snd (receiveParameters_loop s ?g1) =
       ?g1\<lparr>K := K (snd (receiveParameters_loop s ?g1)), N := N (snd (receiveParameters_loop s ?g1)),
         serial2 := serial2 (snd (receiveParameters_loop s ?g1))\<rparr>"
      by (intro "1.IH") simp_all
    then show ?thesis
      unfolding unf by simp
  next
    case False
    then show ?thesis
      by (subst (1 2 3 4) receiveParameters_loop.simps) (auto simp: Let_def)
  qed
qed

subsection \<open>The loops of the block transfer\<close>

lemma sendBlockBytes_frame:
  "sendBlockBytes data mb block kb i g = (res, g') \<Longrightarrow> g' = g\<lparr>serial2 := serial2 g'\<rparr>"
proof (induction data mb block kb i g rule: sendBlockBytes.induct)
  case (1 data mb block kb i g)
  note prem = "1.prems"[unfolded sendBlockBytes.simps[of data mb block kb i g]]
  show ?case
  proof (cases "i < kb")
    case False
    with prem show ?thesis by simp
  next
    case True
    note lt = this
    let ?idx = "u16 (block * kb + i)"
    show ?thesis
    proof (cases "?idx < bytes_of mb")
      case inb: True
      show ?thesis
      proof (cases "?idx < length data")
        case True
        with lt inb prem "1.IH"(1)[OF lt refl inb True] show ?thesis
          by (simp add: Let_def)
      next
        case False
        with lt inb prem show ?thesis by (simp add: Let_def)
      qed
    next
      case False
      with lt prem "1.IH"(2)[OF lt refl False] show ?thesis
        by (simp add: Let_def)
    qed
  qed
qed

lemma sendBlockBytes_tx:
  assumes "bytes_of mb \<le> length data" "block * kb + kb \<le> 65536" "i \<le> kb"
  shows "fst (sendBlockBytes data mb block kb i g) = None \<and>
         tx (serial2 (snd (sendBlockBytes data mb block kb i g))) =
           tx (serial2 g) @ map (block_byte data mb kb block) [i..<kb] \<and>
         rx (serial2 (snd (sendBlockBytes data mb block kb i g))) = rx (serial2 g) \<and>
         now (serial2 (snd (sendBlockBytes data mb block kb i g))) = now (serial2 g) + 10 * (kb - i)"
  using assms
proof (induction data mb block kb i g rule: sendBlockBytes.induct)
  case (1 data mb block kb i g)
  show ?case
  proof (cases "i < kb")
    case False
    then have "sendBlockBytes data mb block kb i g = (None, g)"
      by (subst sendBlockBytes.simps) simp
    with "1.prems" False show ?thesis by simp
  next
    case True
    note lt = this
    have idx: "u16 (block * kb + i) = block * kb + i"
      using lt "1.prems"(2) by (simp add: u16_def)
    have up: "[i..<kb] = i # [Suc i..<kb]"
      using lt by (simp add: upt_conv_Cons)
    show ?thesis
    proof (cases "block * kb + i < bytes_of mb")
      case inb: True
      then have inr: "block * kb + i < length data" using "1.prems"(1) by simp
      from "1.IH"(1)[OF lt refl _ _ "1.prems"(1) "1.prems"(2)] lt inb inr idx
      show ?thesis
        by (simp add: sendBlockBytes.simps[of data mb block kb i g] Let_def up block_byte_def)
    next
      case False
      from "1.IH"(2)[OF lt refl _ "1.prems"(1) "1.prems"(2)] lt False idx
      show ?thesis
        by (simp add: sendBlockBytes.simps[of data mb block kb i g] Let_def up block_byte_def)
    qed
  qed
qed

lemma receiveBlock_inv:
  assumes "receiveBlock s b nb r g = (res, r', g')"
  shows "g' = g\<lparr>serial2 := serial2 g', encoded_buffer := encoded_buffer g'\<rparr> \<and>
         tx (serial2 g') = tx (serial2 g) \<and>
         r \<le> r' \<and> (r \<le> nb \<longrightarrow> r' \<le> nb) \<and>
         r' - r \<le> length (rx (serial2 g)) \<and>
         rx (serial2 g') = drop (r' - r) (rx (serial2 g)) \<and>
         length (encoded_buffer g') = length (encoded_buffer g) \<and>
         (\<forall>j. encoded_buffer g' ! j =
              (if b * nb + r \<le> j \<and> j < b * nb + r'
               then snd (rx (serial2 g) ! (j - (b * nb + r)))
               else encoded_buffer g ! j)) \<and>
         now (serial2 g) \<le> now (serial2 g') \<and>
         (r < r' \<longrightarrow> b * nb + r' \<le> length (encoded_buffer g)) \<and>
         (case res of
            None \<Rightarrow> r' < nb \<longrightarrow> 3000 \<le> now (serial2 g') - s
          | Some ub \<Rightarrow> ub = WritePastEncodedBuffer (b * nb + r') \<and>
                       length (encoded_buffer g) \<le> b * nb + r' \<and> r' < nb)"
  using assms
proof (induction s b nb r g rule: receiveBlock.induct)
  case (1 s b nb r g)
  note prem = "1.prems"[unfolded receiveBlock.simps[of s b nb r g]]
  show ?case
  proof (cases "r < nb \<and> now (serial2 g) - s < 3000")
    case False
    with prem show ?thesis by auto
  next
    case True
    note go = this
    show ?thesis
    proof (cases "0 < serial2_available (serial2 g)")
      case False
      with go prem have
        rec: "receiveBlock s b nb r (g\<lparr>serial2 := delay 1 (serial2 g)\<rparr>) = (res, r', g')"
        by simp
      from "1.IH"(2)[OF go False rec] show ?thesis by (simp split: option.splits)
    next
      case av: True
      then obtain p ps where rx: "rx (serial2 g) = p # ps" and due: "fst p \<le> now (serial2 g)"
        by (auto simp: available_pos_iff)
      have rd: "serial2_read (serial2 g) = (snd p, (serial2 g)\<lparr>rx := ps\<rparr>)"
        using rx due by (rule read_available)
      show ?thesis
      proof (cases "b * nb + r < length (encoded_buffer g)")
        case False
        with go av prem show ?thesis by (auto simp: Let_def)
      next
        case inb: True
        let ?g1 = "g\<lparr>encoded_buffer := (encoded_buffer g)[b * nb + r := fst (serial2_read (serial2 g))],
                     serial2 := delay 1 (snd (serial2_read (serial2 g)))\<rparr>"
        from go av inb prem have
          rec: "receiveBlock s b nb (r + 1) ?g1 = (res, r', g')"
          by (simp add: Let_def)
        note ih = "1.IH"(1)[OF go av refl inb rec]
        from ih have le: "r + 1 \<le> r'" by simp
        from ih have a: "g' = g\<lparr>serial2 := serial2 g', encoded_buffer := encoded_buffer g'\<rparr>"
          by simp
        from ih have b: "tx (serial2 g') = tx (serial2 g)" by (simp add: rd)
        from ih go have c: "r \<le> r' \<and> (r \<le> nb \<longrightarrow> r' \<le> nb)" by auto
        from ih le have d: "r' - r \<le> length (rx (serial2 g))" by (auto simp: rd rx)
        from ih le have e: "rx (serial2 g') = drop (r' - r) (rx (serial2 g))"
          by (auto simp: rd rx drop_Cons')
        from ih have f: "length (encoded_buffer g') = length (encoded_buffer g)" by simp
        have g: "encoded_buffer g' ! j =
              (if b * nb + r \<le> j \<and> j < b * nb + r'
               then snd (rx (serial2 g) ! (j - (b * nb + r)))
               else encoded_buffer g ! j)" for j
        proof -
          from ih have "encoded_buffer g' ! j =
              (if b * nb + (r + 1) \<le> j \<and> j < b * nb + r'
               then snd (ps ! (j - (b * nb + (r + 1))))
               else (encoded_buffer g)[b * nb + r := snd p] ! j)"
            by (simp add: rd)
          then show ?thesis
            using inb le by (auto simp: rx nth_Cons' nth_list_update)
        qed
        from ih have h: "now (serial2 g) \<le> now (serial2 g')" by (simp add: rd)
        from ih inb have h': "r < r' \<longrightarrow> b * nb + r' \<le> length (encoded_buffer g)"
          by (cases "r + 1 < r'") auto
        from ih have i: "(case res of
            None \<Rightarrow> r' < nb \<longrightarrow> 3000 \<le> now (serial2 g') - s
          | Some ub \<Rightarrow> ub = WritePastEncodedBuffer (b * nb + r') \<and>
                       length (encoded_buffer g) \<le> b * nb + r' \<and> r' < nb)"
          by (auto split: option.splits)
        from a b c d e f g h h' i show ?thesis by blast
      qed
    qed
  qed
qed

lemma sendBlocks_inv:
  assumes "sendBlocks data mb kb C block g = (res, g')"
    and "bytes_of mb \<le> length data" and "C * kb \<le> 65536"
  shows "g' = g\<lparr>serial2 := serial2 g', encoded_buffer := encoded_buffer g'\<rparr> \<and>
     length (encoded_buffer g') = length (encoded_buffer g) \<and>
     now (serial2 g) \<le> now (serial2 g') \<and>
     (\<exists>m n. tx (serial2 g') =
              tx (serial2 g) @ concat (map (block_payload data mb kb) [block..<m]) \<and>
        n \<le> length (rx (serial2 g)) \<and> rx (serial2 g') = drop n (rx (serial2 g)) \<and>
        (\<forall>j. encoded_buffer g' ! j =
           (if block * u16 (bytes_of (N g)) \<le> j \<and> j < block * u16 (bytes_of (N g)) + n
            then snd (rx (serial2 g) ! (j - block * u16 (bytes_of (N g))))
            else encoded_buffer g ! j)) \<and>
        (0 < n \<longrightarrow> block * u16 (bytes_of (N g)) + n \<le> length (encoded_buffer g)) \<and>
        (case res of
           Transferred \<Rightarrow> m = max block C \<and> n = (C - block) * u16 (bytes_of (N g))
         | BlockTimeout b \<Rightarrow> block \<le> b \<and> b < C \<and> m = Suc b \<and>
             (b - block) * u16 (bytes_of (N g)) \<le> n \<and>
             n < (Suc b - block) * u16 (bytes_of (N g)) \<and>
             now (serial2 g) + 3000 \<le> now (serial2 g')
         | WritePastEncodedBuffer idx \<Rightarrow> block < m \<and> m \<le> C \<and>
             idx = block * u16 (bytes_of (N g)) + n \<and> length (encoded_buffer g) \<le> idx
         | _ \<Rightarrow> False))"
  using assms
proof (induction data mb kb C block g arbitrary: res g' rule: sendBlocks.induct)
  case (1 data mb kb C block g)
  let ?nbg = "u16 (bytes_of (N g))"
  show ?case
  proof (cases "block < C")
    case False
    with "1.prems"(1) have "res = Transferred" "g' = g"
      by (simp_all add: sendBlocks.simps[of data mb kb C block g])
    with False show ?thesis
      apply (intro conjI)
         apply simp
        apply simp
       apply simp
      apply (rule exI[of _ block], rule exI[of _ 0])
      apply auto
      done
  next
    case lt: True
    let ?s = "sendBlockBytes data mb block kb 0 g"
    let ?nb = "u16 (bytes_of (N (snd ?s)))"
    let ?r = "receiveBlock (now (serial2 (snd ?s))) block ?nb 0 (snd ?s)"
    let ?g2 = "snd (snd ?r)"
    let ?r' = "fst (snd ?r)"
    have "Suc block * kb \<le> C * kb"
      using lt by (intro mult_le_mono1) simp
    then have nowrap: "block * kb + kb \<le> 65536"
      using "1.prems"(3) by simp
    note sb = sendBlockBytes_tx[OF "1.prems"(2) nowrap, of 0 g]
    from sb have s_ok: "fst ?s = None" by simp
    from sb have txs: "tx (serial2 (snd ?s)) = tx (serial2 g) @ block_payload data mb kb block"
      by (simp add: block_payload_def)
    from sb have rxs: "rx (serial2 (snd ?s)) = rx (serial2 g)" by simp
    have fr: "snd ?s = g\<lparr>serial2 := serial2 (snd ?s)\<rparr>"
      by (rule sendBlockBytes_frame[of data mb block kb 0 g "fst ?s"]) simp
    have Ns: "N (snd ?s) = N g" and encs: "encoded_buffer (snd ?s) = encoded_buffer g"
      by (subst fr, simp)+
    have nb: "?nb = ?nbg" by (simp add: Ns)
    have rb: "?r = (fst ?r, ?r', ?g2)" by simp
    note ri = receiveBlock_inv[OF rb]
    have "?g2 = (snd ?s)\<lparr>serial2 := serial2 ?g2, encoded_buffer := encoded_buffer ?g2\<rparr>"
      by (rule ri[THEN conjunct1])
    also have "\<dots> = g\<lparr>serial2 := serial2 ?g2, encoded_buffer := encoded_buffer ?g2\<rparr>"
      by (subst fr) simp
    finally have g2fr: "?g2 = g\<lparr>serial2 := serial2 ?g2, encoded_buffer := encoded_buffer ?g2\<rparr>" .
    have N2: "N ?g2 = N g" by (subst g2fr) simp
    from ri have tx2: "tx (serial2 ?g2) = tx (serial2 g) @ block_payload data mb kb block"
      by (simp add: txs)
    from ri have r'le: "?r' \<le> ?nbg" by (simp add: nb)
    from ri have r'len: "?r' \<le> length (rx (serial2 g))" by (simp add: rxs)
    from ri have rx2: "rx (serial2 ?g2) = drop ?r' (rx (serial2 g))" by (simp add: rxs)
    from ri have len2: "length (encoded_buffer ?g2) = length (encoded_buffer g)"
      by (simp add: encs)
    from sb have nows: "now (serial2 g) \<le> now (serial2 (snd ?s))" by simp
    from ri nows have now2: "now (serial2 g) \<le> now (serial2 ?g2)" by simp
    from ri have inb2: "0 < ?r' \<longrightarrow> block * ?nbg + ?r' \<le> length (encoded_buffer g)"
      by (simp add: nb encs)
    have enc2: "encoded_buffer ?g2 ! j =
           (if block * ?nbg \<le> j \<and> j < block * ?nbg + ?r'
            then snd (rx (serial2 g) ! (j - block * ?nbg))
            else encoded_buffer g ! j)" for j
      using ri[THEN conjunct2, THEN conjunct2, THEN conjunct2, THEN conjunct2, THEN conjunct2,
               THEN conjunct2, THEN conjunct2, THEN conjunct1, rule_format, of j]
      by (simp add: rxs encs nb)
    have unf: "sendBlocks data mb kb C block g =
        (case fst ?r of
           Some ub \<Rightarrow> (ub, ?g2)
         | None \<Rightarrow> if ?r' < ?nb then (BlockTimeout block, ?g2)
                   else sendBlocks data mb kb C (block + 1) ?g2)"
      by (simp add: sendBlocks.simps[of data mb kb C block g] lt s_ok Let_def)
    have pay: "tx (serial2 g) @ block_payload data mb kb block =
        tx (serial2 g) @ concat (map (block_payload data mb kb) [block..<Suc block])"
      by simp
    show ?thesis
    proof (cases "fst ?r")
      case (Some ub)
      with unf "1.prems"(1) have res: "res = ub" and g': "g' = ?g2" by simp_all
      from ri Some have ub: "ub = WritePastEncodedBuffer (block * ?nbg + ?r')"
        and over: "length (encoded_buffer g) \<le> block * ?nbg + ?r'"
        by (simp_all add: nb encs)
      show ?thesis
        unfolding g' res ub
        apply (intro conjI)
           apply (rule g2fr)
          apply (rule len2)
         apply (rule now2)
        apply (rule exI[of _ "Suc block"], rule exI[of _ ?r'], intro conjI)
             apply (simp only: tx2 pay)
            apply (rule r'len)
           apply (rule rx2)
          apply (intro allI, rule enc2)
         apply (rule inb2)
        using lt over apply simp
        done
    next
      case None
      show ?thesis
      proof (cases "?r' < ?nb")
        case True
        with None unf "1.prems"(1) have res: "res = BlockTimeout block" and g': "g' = ?g2"
          by simp_all
        from ri None True have "3000 \<le> now (serial2 ?g2) - now (serial2 (snd ?s))" by simp
        with nows have late: "now (serial2 g) + 3000 \<le> now (serial2 ?g2)" by simp
        show ?thesis
          unfolding g' res
          apply (intro conjI)
             apply (rule g2fr)
            apply (rule len2)
           apply (rule now2)
          apply (rule exI[of _ "Suc block"], rule exI[of _ ?r'], intro conjI)
               apply (simp only: tx2 pay)
              apply (rule r'len)
             apply (rule rx2)
            apply (intro allI, rule enc2)
           apply (rule inb2)
          using lt True nb late apply simp
          done
      next
        case False
        with r'le nb have r'eq: "?r' = ?nbg" by simp
        from None False unf "1.prems"(1) have
          rec: "sendBlocks data mb kb C (block + 1) ?g2 = (res, g')" by simp
        note ih = "1.IH"[OF lt refl s_ok refl refl refl None False rec "1.prems"(2,3)]
        from ih obtain m n where
          txi: "tx (serial2 g') =
              tx (serial2 ?g2) @ concat (map (block_payload data mb kb) [block + 1..<m])"
          and ni: "n \<le> length (rx (serial2 ?g2))"
          and rxi: "rx (serial2 g') = drop n (rx (serial2 ?g2))"
          and enci: "\<And>j. encoded_buffer g' ! j =
           (if (block + 1) * ?nbg \<le> j \<and> j < (block + 1) * ?nbg + n
            then snd (rx (serial2 ?g2) ! (j - (block + 1) * ?nbg))
            else encoded_buffer ?g2 ! j)"
          and inbi: "0 < n \<longrightarrow> (block + 1) * ?nbg + n \<le> length (encoded_buffer ?g2)"
          and resi: "(case res of
           Transferred \<Rightarrow> m = max (block + 1) C \<and> n = (C - (block + 1)) * ?nbg
         | BlockTimeout b \<Rightarrow> block + 1 \<le> b \<and> b < C \<and> m = Suc b \<and>
             (b - (block + 1)) * ?nbg \<le> n \<and> n < (Suc b - (block + 1)) * ?nbg \<and>
             now (serial2 ?g2) + 3000 \<le> now (serial2 g')
         | WritePastEncodedBuffer idx \<Rightarrow> block + 1 < m \<and> m \<le> C \<and>
             idx = (block + 1) * ?nbg + n \<and> length (encoded_buffer ?g2) \<le> idx
         | _ \<Rightarrow> False)"
          unfolding N2 by blast
        from ih have fr': "g' = ?g2\<lparr>serial2 := serial2 g', encoded_buffer := encoded_buffer g'\<rparr>"
          and len': "length (encoded_buffer g') = length (encoded_buffer ?g2)"
          and now': "now (serial2 ?g2) \<le> now (serial2 g')"
          by blast+
        have c2': "now (serial2 g) \<le> now (serial2 g')" using now2 now' by simp
        have c6': "0 < ?nbg + n \<longrightarrow> block * ?nbg + (?nbg + n) \<le> length (encoded_buffer g)"
          using inbi inb2 len2 r'eq by (cases "0 < n") (simp_all add: algebra_simps)
        have mlt: "block < m" using resi lt by (cases res) simp_all
        have c1: "g' = g\<lparr>serial2 := serial2 g', encoded_buffer := encoded_buffer g'\<rparr>"
          by (subst fr', subst g2fr) simp
        have c2: "length (encoded_buffer g') = length (encoded_buffer g)"
          using len' len2 by simp
        have c3: "tx (serial2 g') =
              tx (serial2 g) @ concat (map (block_payload data mb kb) [block..<m])"
          using mlt by (simp add: txi tx2 upt_conv_Cons)
        have c4: "?nbg + n \<le> length (rx (serial2 g))"
          using ni r'len by (simp add: rx2 r'eq)
        have c5: "rx (serial2 g') = drop (?nbg + n) (rx (serial2 g))"
          by (simp add: rxi rx2 r'eq add.commute)
        have c6: "encoded_buffer g' ! j =
           (if block * ?nbg \<le> j \<and> j < block * ?nbg + (?nbg + n)
            then snd (rx (serial2 g) ! (j - block * ?nbg))
            else encoded_buffer g ! j)" for j
        proof -
          have le: "?nbg \<le> length (rx (serial2 g))" using r'len r'eq by simp
          show ?thesis
          proof (cases "(block + 1) * ?nbg \<le> j \<and> j < (block + 1) * ?nbg + n")
            case True
            then have "?nbg + (j - (block + 1) * ?nbg) = j - block * ?nbg" by simp
            with True show ?thesis
              by (simp add: enci rx2 r'eq nth_drop[OF le])
          next
            case False
            then show ?thesis
              by (auto simp: enci enc2 r'eq)
          qed
        qed
        have c7: "(case res of
           Transferred \<Rightarrow> m = max block C \<and> ?nbg + n = (C - block) * ?nbg
         | BlockTimeout b \<Rightarrow> block \<le> b \<and> b < C \<and> m = Suc b \<and>
             (b - block) * ?nbg \<le> ?nbg + n \<and> ?nbg + n < (Suc b - block) * ?nbg \<and>
             now (serial2 g) + 3000 \<le> now (serial2 g')
         | WritePastEncodedBuffer idx \<Rightarrow> block < m \<and> m \<le> C \<and>
             idx = block * ?nbg + (?nbg + n) \<and> length (encoded_buffer g) \<le> idx
         | _ \<Rightarrow> False)"
        proof (cases res)
          case Transferred
          have "C - block = Suc (C - (block + 1))" using lt by simp
          then have "(C - block) * ?nbg = ?nbg + (C - (block + 1)) * ?nbg"
            by (simp only: mult_Suc)
          with resi Transferred lt show ?thesis by simp
        next
          case (BlockTimeout b)
          with resi have bl: "block + 1 \<le> b" by simp
          then have "b - block = Suc (b - (block + 1))" "Suc b - block = Suc (Suc b - (block + 1))"
            by simp_all
          then have "(b - block) * ?nbg = ?nbg + (b - (block + 1)) * ?nbg"
            "(Suc b - block) * ?nbg = ?nbg + (Suc b - (block + 1)) * ?nbg"
            by (simp_all only: mult_Suc)
          with resi BlockTimeout now2 show ?thesis by simp
        next
          case (WritePastEncodedBuffer idx)
          with resi len2 show ?thesis by simp
        qed (use resi in simp_all)
        show ?thesis
          apply (intro conjI)
             apply (rule c1)
            apply (rule c2)
           apply (rule c2')
          apply (rule exI[of _ m], rule exI[of _ "?nbg + n"], intro conjI)
               apply (rule c3)
              apply (rule c4)
             apply (rule c5)
            apply (intro allI, rule c6)
           apply (rule c6')
          apply (rule c7)
          done
      qed
    qed
  qed
qed

declare u16_bytes_of [simp] u16_blocks_of [simp]

lemma sendMessageData_blocks:
  assumes "K g \<noteq> 0"
  shows "sendMessageData data mb cb g =
           sendBlocks data mb (bytes_of (K g))
             (blocks_of (if cb > 0 then cb else mb) (K g)) 0 g"
  using assms by (simp add: sendMessageData_def Let_def)

lemma sendMessageData_inv:
  assumes "sendMessageData data mb cb g = (res, g')" and "K g \<noteq> 0"
    and "bytes_of mb \<le> length data"
    and eb: "eb = (if cb > 0 then cb else mb)"
  shows "g' = g\<lparr>serial2 := serial2 g', encoded_buffer := encoded_buffer g'\<rparr> \<and>
     length (encoded_buffer g') = length (encoded_buffer g) \<and>
     now (serial2 g) \<le> now (serial2 g') \<and>
     (\<exists>m n. tx (serial2 g') =
              tx (serial2 g) @ concat (map (block_payload data mb (bytes_of (K g))) [0..<m]) \<and>
        n \<le> length (rx (serial2 g)) \<and> rx (serial2 g') = drop n (rx (serial2 g)) \<and>
        (\<forall>j. encoded_buffer g' ! j =
           (if j < n then snd (rx (serial2 g) ! j) else encoded_buffer g ! j)) \<and>
        (0 < n \<longrightarrow> n \<le> length (encoded_buffer g)) \<and>
        (case res of
           Transferred \<Rightarrow> m = blocks_of eb (K g) \<and> n = blocks_of eb (K g) * bytes_of (N g)
         | BlockTimeout b \<Rightarrow> b < blocks_of eb (K g) \<and> m = Suc b \<and>
             b * bytes_of (N g) \<le> n \<and> n < Suc b * bytes_of (N g) \<and>
             now (serial2 g) + 3000 \<le> now (serial2 g')
         | WritePastEncodedBuffer idx \<Rightarrow> 0 < m \<and> m \<le> blocks_of eb (K g) \<and>
             idx = n \<and> length (encoded_buffer g) \<le> idx
         | _ \<Rightarrow> False))"
proof -
  from assms(1,2) have sb: "sendBlocks data mb (bytes_of (K g)) (blocks_of eb (K g)) 0 g = (res, g')"
    by (simp add: sendMessageData_blocks eb)
  have nw: "blocks_of eb (K g) * bytes_of (K g) \<le> 65536"
    using assms(2) by (rule transfer_no_wrap)
  from sendBlocks_inv[OF sb assms(3) nw] show ?thesis
    by (simp cong: if_cong transfer_result.case_cong)
qed

lemma receiveBlock_starved:
  assumes "length (rx (serial2 g)) + r < nb" and "b * nb + nb \<le> length (encoded_buffer g)"
  shows "fst (receiveBlock s b nb r g) = None \<and> fst (snd (receiveBlock s b nb r g)) < nb"
proof -
  obtain res r' g' where rb: "receiveBlock s b nb r g = (res, r', g')"
    by (cases "receiveBlock s b nb r g") auto
  note ri = receiveBlock_inv[OF rb]
  from ri have "r' - r \<le> length (rx (serial2 g))" by simp
  with assms(1) have lt: "r' < nb" by simp
  have "res = None"
  proof (cases res)
    case (Some ub)
    with ri have "length (encoded_buffer g) \<le> b * nb + r'" by simp
    with lt assms(2) show ?thesis by simp
  qed simp
  with lt rb show ?thesis by simp
qed

lemma sendBlocks_starved:
  assumes "block < C" and "bytes_of mb \<le> length data" and "C * kb \<le> 65536"
    and "length (rx (serial2 g)) < u16 (bytes_of (N g))"
    and "block * u16 (bytes_of (N g)) + u16 (bytes_of (N g)) \<le> length (encoded_buffer g)"
  shows "fst (sendBlocks data mb kb C block g) = BlockTimeout block"
proof -
  let ?s = "sendBlockBytes data mb block kb 0 g"
  have "Suc block * kb \<le> C * kb"
    using assms(1) by (intro mult_le_mono1) simp
  then have nowrap: "block * kb + kb \<le> 65536"
    using assms(3) by simp
  note sb = sendBlockBytes_tx[OF assms(2) nowrap, of 0 g]
  have fr: "snd ?s = g\<lparr>serial2 := serial2 (snd ?s)\<rparr>"
    by (rule sendBlockBytes_frame[of data mb block kb 0 g "fst ?s"]) simp
  have Ns: "N (snd ?s) = N g" and encs: "encoded_buffer (snd ?s) = encoded_buffer g"
    by (subst fr, simp)+
  from sb have rxs: "rx (serial2 (snd ?s)) = rx (serial2 g)" by simp
  have "fst (receiveBlock (now (serial2 (snd ?s))) block (u16 (bytes_of (N g))) 0 (snd ?s)) = None \<and>
        fst (snd (receiveBlock (now (serial2 (snd ?s))) block (u16 (bytes_of (N g))) 0 (snd ?s)))
          < u16 (bytes_of (N g))"
    by (rule receiveBlock_starved) (use assms(4,5) in \<open>simp_all add: rxs encs\<close>)
  with sb assms(1) show ?thesis
    by (simp add: sendBlocks.simps[of data mb kb C block g] Let_def Ns)
qed

lemma receiveBlock_overflow:
  assumes "\<forall>p \<in> set (rx (serial2 g)). fst p \<le> now (serial2 g)"
    and "b * nb + r + d = length (encoded_buffer g)"
    and "length (encoded_buffer g) < b * nb + nb"
    and "d < length (rx (serial2 g))"
    and "now (serial2 g) - s + d < 3000"
  shows "fst (receiveBlock s b nb r g) =
           Some (WritePastEncodedBuffer (length (encoded_buffer g)))"
  using assms
proof (induction d arbitrary: r g)
  case 0
  from "0.prems"(4) obtain p ps where rx: "rx (serial2 g) = p # ps"
    by (cases "rx (serial2 g)") auto
  with "0.prems"(1) have av: "0 < serial2_available (serial2 g)"
    by (simp add: available_pos_iff)
  from "0.prems"(2,3,5) av show ?case
    by (subst receiveBlock.simps) (simp add: Let_def)
next
  case (Suc d)
  from Suc.prems(4) obtain p ps where rx: "rx (serial2 g) = p # ps"
    by (cases "rx (serial2 g)") auto
  with Suc.prems(1) have due: "fst p \<le> now (serial2 g)" by simp
  with rx have av: "0 < serial2_available (serial2 g)"
    by (simp add: available_pos_iff)
  have rd: "serial2_read (serial2 g) = (snd p, (serial2 g)\<lparr>rx := ps\<rparr>)"
    using rx due by (rule read_available)
  let ?g1 = "g\<lparr>encoded_buffer := (encoded_buffer g)[b * nb + r := fst (serial2_read (serial2 g))],
               serial2 := delay 1 (snd (serial2_read (serial2 g)))\<rparr>"
  have "fst (receiveBlock s b nb (r + 1) ?g1) =
          Some (WritePastEncodedBuffer (length (encoded_buffer ?g1)))"
  proof (rule Suc.IH)
    show "\<forall>p \<in> set (rx (serial2 ?g1)). fst p \<le> now (serial2 ?g1)"
      using Suc.prems(1) by (auto simp: rd rx)
    show "b * nb + (r + 1) + d = length (encoded_buffer ?g1)"
      using Suc.prems(2) by simp
    show "length (encoded_buffer ?g1) < b * nb + nb"
      using Suc.prems(3) by simp
    show "d < length (rx (serial2 ?g1))"
      using Suc.prems(4) by (simp add: rd rx)
    show "now (serial2 ?g1) - s + d < 3000"
      using Suc.prems(5) by (simp add: rd)
  qed
  moreover from Suc.prems(2,3,5) av have
    "receiveBlock s b nb r g = receiveBlock s b nb (r + 1) ?g1"
    by (subst receiveBlock.simps) (simp add: Let_def)
  ultimately show ?case by simp
qed

subsection \<open>The state variable\<close>

lemma receiveParameters_loop_state:
  "currentState (snd (receiveParameters_loop s g)) = currentState g"
proof (induction s g rule: receiveParameters_loop.induct)
  case (1 s g)
  show ?case
  proof (cases "now (serial2 g) - s < 3000 \<and> \<not> 4 \<le> serial2_available (serial2 g)")
    case True
    then have "receiveParameters_loop s g =
                 receiveParameters_loop s (g\<lparr>serial2 := delay 10 (serial2 g)\<rparr>)"
      by (subst receiveParameters_loop.simps) simp
    with "1.IH" True show ?thesis by simp
  next
    case False
    then show ?thesis
      by (subst receiveParameters_loop.simps) (auto simp: Let_def)
  qed
qed

lemma sendBlocks_state:
  "currentState (snd (sendBlocks data mb kb C block g)) = currentState g"
proof (induction data mb kb C block g rule: sendBlocks.induct)
  case (1 data mb kb C block g)
  let ?s = "sendBlockBytes data mb block kb 0 g"
  let ?nb = "u16 (bytes_of (N (snd ?s)))"
  let ?r = "receiveBlock (now (serial2 (snd ?s))) block ?nb 0 (snd ?s)"
  have fr: "snd ?s = g\<lparr>serial2 := serial2 (snd ?s)\<rparr>"
    by (rule sendBlockBytes_frame[of data mb block kb 0 g "fst ?s"]) simp
  have s: "currentState (snd ?s) = currentState g"
    by (subst fr) simp
  have rb: "?r = (fst ?r, fst (snd ?r), snd (snd ?r))" by simp
  have "snd (snd ?r) = (snd ?s)\<lparr>serial2 := serial2 (snd (snd ?r)),
                                  encoded_buffer := encoded_buffer (snd (snd ?r))\<rparr>"
    by (rule receiveBlock_inv[OF rb, THEN conjunct1])
  then have "currentState (snd (snd ?r)) =
      currentState ((snd ?s)\<lparr>serial2 := serial2 (snd (snd ?r)),
                                  encoded_buffer := encoded_buffer (snd (snd ?r))\<rparr>)"
    by (rule arg_cong)
  with s have r: "currentState (snd (snd ?r)) = currentState g" by simp
  show ?case
  proof (cases "block < C \<and> fst ?s = None \<and> fst ?r = None \<and> \<not> fst (snd ?r) < ?nb")
    case True
    then have "sendBlocks data mb kb C block g = sendBlocks data mb kb C (block + 1) (snd (snd ?r))"
      by (subst sendBlocks.simps) (simp add: Let_def)
    moreover from True have
      "currentState (snd (sendBlocks data mb kb C (block + 1) (snd (snd ?r)))) =
         currentState (snd (snd ?r))"
      by (intro "1.IH"[OF _ refl _ refl refl refl]) simp_all
    ultimately show ?thesis using r by simp
  next
    case False
    then show ?thesis
      using s r
      by (subst sendBlocks.simps) (auto simp: Let_def split: option.splits)
  qed
qed

lemma sendMessageData_state:
  "currentState (snd (sendMessageData data mb cb g)) = currentState g"
  by (simp add: sendMessageData_def Let_def sendBlocks_state)

lemma waitForTag_state: "currentState (snd (waitForTag g)) = currentState g"
  by (simp add: waitForTag_def Let_def)

lemma sendMessageLength_state: "currentState (snd (sendMessageLength bits g)) = currentState g"
  by (simp add: sendMessageLength_def Let_def)

lemma receiveParameters_state: "currentState (snd (receiveParameters g)) = currentState g"
  by (simp add: receiveParameters_def receiveParameters_loop_state)

subsection \<open>A device that stops answering\<close>




subsection \<open>What the phases write\<close>

lemma waitForTag_tx: "tx (serial2 (snd (waitForTag g))) = tx (serial2 g)"
proof -
  let ?r = "waitForTag_loop (now (serial2 g)) 0 (serial2 g)"
  have "?r = (fst ?r, snd ?r)" by simp
  from waitForTag_loop_inv[OF this] have "tx (snd ?r) = tx (serial2 g)" by auto
  then show ?thesis by (simp add: waitForTag_def Let_def)
qed

lemma waitForTag_silent:
  assumes "rx (serial2 g) = []"
  shows "\<not> fst (waitForTag g)"
proof -
  let ?r = "waitForTag_loop (now (serial2 g)) 0 (serial2 g)"
  have "?r = (fst ?r, snd ?r)" by simp
  from waitForTag_loop_inv[OF this] assms have "\<not> fst ?r" by auto
  then show ?thesis by (simp add: waitForTag_def Let_def)
qed

lemma sendMessageLength_tx:
  "fst (sendMessageLength bits g) \<and>
   tx (serial2 (snd (sendMessageLength bits g))) =
     tx (serial2 g) @ [ucast (drop_bit 8 bits), ucast (bits AND 0xFF)]"
  by (simp add: sendMessageLength_def Let_def)

lemma receiveParameters_effect:
  "tx (serial2 (snd (receiveParameters g))) = tx (serial2 g) \<and>
   (\<not> fst (receiveParameters g) \<longrightarrow>
      K (snd (receiveParameters g)) = K g \<and> N (snd (receiveParameters g)) = N g \<and>
      rx (serial2 (snd (receiveParameters g))) = rx (serial2 g))"
proof (cases "ready_at (now (serial2 g) + 2990) (serial2 g)")
  case True
  have "ready_at (now (serial2 g) + 10 * 299) (serial2 g)"
    and "now (serial2 g) + 10 * 299 < now (serial2 g) + 3000"
    using True by simp_all
  from receiveParameters_loop_success[OF this] show ?thesis
    by (auto simp: receiveParameters_def)
next
  case False
  from receiveParameters_loop_timeout[OF False] show ?thesis
    by (auto simp: receiveParameters_def)
qed

lemma receiveParameters_starved:
  assumes "length (rx (serial2 g)) < 4"
  shows "\<not> fst (receiveParameters g)"
proof -
  have "length (takeWhile (\<lambda>p. fst p \<le> now (serial2 g) + 2990) (rx (serial2 g))) \<le>
          length (rx (serial2 g))"
    by (rule length_takeWhile_le)
  with assms have "\<not> ready_at (now (serial2 g) + 2990) (serial2 g)"
    by (simp add: ready_at_def)
  from receiveParameters_loop_timeout[OF this] show ?thesis
    by (auto simp: receiveParameters_def)
qed

subsection \<open>Evaluation of concrete sessions\<close>

lemmas run_simps =
  handleEncoding_def waitForTag_def waitForTag_loop.simps sendMessageLength_def
  receiveParameters_def receiveParameters_loop.simps sendMessageData_def sendBlocks.simps
  sendBlockBytes.simps receiveBlock.simps serial2_available_def serial2_read_def
  serial2_write_def delay_def tag_step_def LDPC_TAG_0_def LDPC_TAG_1_def LDPC_TAG_2_def
  LDPC_TAG_3_def be16_def u16_def bytes_of_def blocks_of_def totalEncodedBytes_def
  initial_globals_def device_def MAX_MESSAGE_LENGTH_def Let_def

section \<open>The claims\<close>

subsection \<open>Block count and encoded size\<close>

text \<open>
  Claim C1 fails on the code. \<^verbatim>\<open>sendMessageData\<close> counts the blocks from the bit
  count of the claim, the override when it is positive and the count of the message
  otherwise (line 174), but the completion display of \<^verbatim>\<open>handleEncoding\<close> (lines 343
  to 356) counts them from \<^verbatim>\<open>manual_message_bits\<close> as it was typed. With the manual
  length 0, the one-byte message \<open>AB\<close>, \<open>K = 8\<close> and \<open>N = 16\<close> the transfer sends one
  block and stores its two encoded bytes \<open>01 02\<close>, which is \<open>C = ceil(8 / 8) = 1\<close> and
  \<open>C * ceil(16 / 8) = 2\<close> as the claim has it, and the session ends with a block count of
  0 and a total of 0 encoded bytes.
\<close>

theorem manual_zero_length_display:
  "fst (handleEncoding INPUT_HEX_MANUAL 0 ''AB'' [0xAB] manual_zero_example) = Completed 0 0 \<and>
   tx (serial2 (snd (handleEncoding INPUT_HEX_MANUAL 0 ''AB'' [0xAB] manual_zero_example))) =
     [0x00, 0x00, 0xAB] \<and>
   rx (serial2 (snd (handleEncoding INPUT_HEX_MANUAL 0 ''AB'' [0xAB] manual_zero_example))) = [] \<and>
   encoded_buffer (snd (handleEncoding INPUT_HEX_MANUAL 0 ''AB'' [0xAB] manual_zero_example)) ! 0
     = 0x01 \<and>
   encoded_buffer (snd (handleEncoding INPUT_HEX_MANUAL 0 ''AB'' [0xAB] manual_zero_example)) ! 1
     = 0x02"
  by (simp add: manual_zero_example_def run_simps)

text \<open>
  The arithmetic itself is as the claim has it. For \<open>K \<noteq> 0\<close> the quotient of the source
  is \<open>ceil(bits / K)\<close> and the total is \<open>C * ceil(N / 8)\<close> modulo \<open>2^16\<close>; with
  \<open>K = 4096\<close>, \<open>N = 8192\<close> and 16 bits there is one block of 1024 bytes.
\<close>

lemma blocks_and_total_ceiling:
  assumes "k \<noteq> 0"
  shows "u16 (blocks_of bits k) = nat \<lceil>real (unat bits) / real (unat k)\<rceil> \<and>
         totalEncodedBytes bits k n =
           (nat \<lceil>real (unat bits) / real (unat k)\<rceil> * nat \<lceil>real (unat n) / 8\<rceil>) mod 65536"
proof -
  have C: "blocks_of bits k = nat \<lceil>real (unat bits) / real (unat k)\<rceil>"
    using assms by (rule blocks_of_ceiling)
  have B: "bytes_of n = nat \<lceil>real (unat n) / 8\<rceil>"
    by (rule bytes_of_ceiling)
  have "u16 (blocks_of bits k) = blocks_of bits k"
    using assms by simp
  moreover have "totalEncodedBytes bits k n = (blocks_of bits k * bytes_of n) mod 65536"
    by (simp add: totalEncodedBytes_def u16_def)
  ultimately show ?thesis
    unfolding C B by simp
qed

lemma blocks_and_total_example:
  "u16 (blocks_of 16 4096) = 1 \<and> totalEncodedBytes 16 4096 8192 = 1024"
  by (simp add: blocks_of_def totalEncodedBytes_def bytes_of_def u16_def)

text \<open>
  A transfer that succeeds has sent \<open>C = ceil(bits / K)\<close> blocks and read
  \<open>C * ceil(N / 8)\<close> encoded bytes, \<open>bits\<close> being the override when it is positive and
  the count of the message otherwise.
\<close>

lemma transfer_block_count:
  assumes "sendMessageData data mb cb g = (Transferred, g')" and "bytes_of mb \<le> length data"
    and "C = nat \<lceil>real (unat (if cb > 0 then cb else mb)) / real (unat (K g))\<rceil>"
    and "nb = nat \<lceil>real (unat (N g)) / 8\<rceil>"
  shows "tx (serial2 g') =
           tx (serial2 g) @ concat (map (block_payload data mb (bytes_of (K g))) [0..<C]) \<and>
         C * nb \<le> length (rx (serial2 g)) \<and>
         rx (serial2 g') = drop (C * nb) (rx (serial2 g))"
proof -
  have k: "K g \<noteq> 0"
  proof
    assume "K g = 0"
    with assms(1) show False by (simp add: sendMessageData_def Let_def)
  qed
  have C: "C = blocks_of (if cb > 0 then cb else mb) (K g)"
    unfolding assms(3) using k by (rule blocks_of_ceiling[symmetric])
  have B: "nb = bytes_of (N g)"
    unfolding assms(4) by (rule bytes_of_ceiling[symmetric])
  note inv = sendMessageData_inv[OF assms(1) k assms(2) refl, unfolded transfer_result.case,
               THEN conjunct2]
  from inv show ?thesis
    unfolding C B by auto
qed

text \<open>
  In a session that completes, the transfer has stored its bytes inside the encoded
  buffer, so the 16-bit total of the display is the exact product of the display's block
  count and \<open>ceil(N / 8)\<close>: it differs from the number of bytes stored only through the
  bit count it starts from.
\<close>

lemma completed_session_total:
  assumes h: "handleEncoding mode manual userInput msg g = (Completed c tot, g')"
    and fits: "length msg \<le> length (message_buffer g)"
    and short: "length msg \<le> MAX_MESSAGE_LENGTH"
    and enc: "length (encoded_buffer g) < 65536"
  shows "K g' \<noteq> 0 \<and>
         c = blocks_of (if mode = INPUT_HEX_MANUAL then manual else message_bits g') (K g') \<and>
         tot = c * bytes_of (N g') \<and>
         (0 < tot \<longrightarrow> tot \<le> length (encoded_buffer g))"
proof -
  define g1 where "g1 = (g\<lparr>lastInputMode := mode\<rparr>)
       \<lparr>message_bits := of_nat (length msg * 8),
        message_buffer := msg @ drop (length msg) (message_buffer (g\<lparr>lastInputMode := mode\<rparr>))\<rparr>"
  define w where "w = waitForTag g1"
  define l where "l = sendMessageLength
                        (if mode = INPUT_HEX_MANUAL then manual else message_bits (snd w)) (snd w)"
  define p where "p = receiveParameters (snd l)"
  define cb where "cb = (if mode = INPUT_HEX_MANUAL then manual else 0)"
  define d where "d = sendMessageData (message_buffer (snd p)) (message_bits (snd p)) cb (snd p)"
  define bits where "bits = (if mode = INPUT_HEX_MANUAL then manual else message_bits (snd p))"
  have unf: "handleEncoding mode manual userInput msg g =
      (if length userInput = 0 then (NoMessage, g\<lparr>lastInputMode := mode\<rparr>)
       else if \<not> fst w then (TagFailed, snd w)
       else if \<not> fst l then (LengthFailed, snd l)
       else if \<not> fst p then (ParametersFailed, snd p)
       else if fst d \<noteq> Transferred then (DataFailed (fst d), snd d)
       else (Completed (blocks_of bits (K (snd d))) (totalEncodedBytes bits (K (snd d)) (N (snd d))),
             snd d))"
    unfolding handleEncoding_def Let_def g1_def w_def l_def p_def cb_def d_def bits_def
    by (rule refl)
  from h unf have fin: "fst d = Transferred" and g': "g' = snd d"
    and c: "c = blocks_of bits (K (snd d))"
    and tot: "tot = totalEncodedBytes bits (K (snd d)) (N (snd d))"
    by (auto split: if_splits)
  have wfr: "snd w = g1\<lparr>serial2 := serial2 (snd w)\<rparr>"
    by (simp add: w_def waitForTag_def Let_def)
  have lfr: "snd l = (snd w)\<lparr>serial2 := serial2 (snd l)\<rparr>"
    by (simp add: l_def sendMessageLength_def Let_def)
  have pfr: "snd p = (snd l)\<lparr>K := K (snd p), N := N (snd p), serial2 := serial2 (snd p)\<rparr>"
    unfolding p_def receiveParameters_def by (rule receiveParameters_loop_frame)
  have gp: "snd p = g1\<lparr>K := K (snd p), N := N (snd p), serial2 := serial2 (snd p)\<rparr>"
    by (subst pfr, subst lfr, subst wfr) simp
  have mb: "message_bits (snd p) = of_nat (length msg * 8)"
    and buf: "message_buffer (snd p) = msg @ drop (length msg) (message_buffer g)"
    and encp: "encoded_buffer (snd p) = encoded_buffer g"
    by (subst gp, simp add: g1_def)+
  have k: "K (snd p) \<noteq> 0"
  proof
    assume "K (snd p) = 0"
    then have "fst d = DivideByZero" by (simp add: d_def sendMessageData_def Let_def)
    with fin show False by simp
  qed
  have "unat (of_nat (length msg * 8) :: 16 word) = (length msg * 8) mod 2 ^ LENGTH(16)"
    by (rule unat_of_nat)
  also have "\<dots> = length msg * 8"
    using short by (simp add: MAX_MESSAGE_LENGTH_def)
  finally have u: "unat (of_nat (length msg * 8) :: 16 word) = length msg * 8" .
  have "bytes_of (message_bits (snd p)) = (length msg * 8 + 7) div 8"
    by (simp only: mb bytes_of_def u)
  then have "bytes_of (message_bits (snd p)) = length msg"
    by simp
  with fits have room: "bytes_of (message_bits (snd p)) \<le> length (message_buffer (snd p))"
    by (simp add: buf)
  have deq: "sendMessageData (message_buffer (snd p)) (message_bits (snd p)) cb (snd p) =
               (Transferred, g')"
    using fin g' by (simp add: d_def prod_eq_iff)
  note inv = sendMessageData_inv[OF deq k room refl, unfolded transfer_result.case]
  from inv have fr: "g' = (snd p)\<lparr>serial2 := serial2 g', encoded_buffer := encoded_buffer g'\<rparr>"
    by blast
  have same: "K g' = K (snd p)" "N g' = N (snd p)" "message_bits g' = message_bits (snd p)"
    by (subst fr, simp)+
  from inv obtain n where
    n: "n = blocks_of (if cb > 0 then cb else message_bits (snd p)) (K (snd p)) * bytes_of (N (snd p))"
    and nb: "0 < n \<longrightarrow> n \<le> length (encoded_buffer (snd p))"
    by blast
  let ?prod = "blocks_of bits (K (snd p)) * bytes_of (N (snd p))"
  have small: "?prod < 65536 \<and> (0 < ?prod \<longrightarrow> ?prod \<le> length (encoded_buffer g))"
  proof (cases "mode = INPUT_HEX_MANUAL \<and> manual = 0")
    case True
    then have "blocks_of bits (K (snd p)) = 0"
      using k by (simp add: bits_def blocks_of_def unat_gt_0)
    then show ?thesis by simp
  next
    case False
    then have "(if cb > 0 then cb else message_bits (snd p)) = bits"
      by (auto simp: cb_def bits_def word_greater_zero_iff)
    with n nb encp enc show ?thesis by (cases "0 < n") auto
  qed
  from small have "totalEncodedBytes bits (K (snd p)) (N (snd p)) = ?prod"
    by (simp add: totalEncodedBytes_def u16_def)
  with c tot small k show ?thesis
    by (simp add: g'[symmetric] same bits_def)
qed

subsection \<open>Near matches of the tag\<close>

text \<open>
  Claim C2, as amended. On the five bytes \<open>DE DE AD C0 DE\<close> with nothing after them
  \<^verbatim>\<open>waitForTag\<close> reports a timeout, whatever their arrival times: the second
  \<open>DE\<close> resets the cursor and is not taken as the start of a tag. Whenever
  \<^verbatim>\<open>waitForTag\<close> succeeds, the last four bytes it consumed are exactly
  \<open>DE AD C0 DE\<close>.
\<close>

theorem sync_accepts_exact_tag_only:
  "(map snd (rx (serial2 g)) = [0xDE, 0xDE, 0xAD, 0xC0, 0xDE] \<longrightarrow> \<not> fst (waitForTag g)) \<and>
   (fst (waitForTag g) \<longrightarrow>
      (\<exists>pre. map snd (take (length (rx (serial2 g)) - length (rx (serial2 (snd (waitForTag g)))))
                         (rx (serial2 g))) = pre @ [0xDE, 0xAD, 0xC0, 0xDE]))"
proof (intro conjI impI)
  assume "map snd (rx (serial2 g)) = [0xDE, 0xDE, 0xAD, 0xC0, 0xDE]"
  from near_miss_rejected[OF this] show "\<not> fst (waitForTag g)"
    by (simp add: waitForTag_def Let_def)
next
  assume "fst (waitForTag g)"
  then have "waitForTag_loop (now (serial2 g)) 0 (serial2 g) = (True, serial2 (snd (waitForTag g)))"
    by (simp add: waitForTag_def Let_def prod_eq_iff)
  from waitForTag_loop_inv[OF this] obtain n where
    n: "n \<le> length (rx (serial2 g))"
    and rx: "rx (serial2 (snd (waitForTag g))) = drop n (rx (serial2 g))"
    and run: "foldl cursor_step 0 (map snd (take n (rx (serial2 g)))) = 4"
    by auto
  from n rx have "length (rx (serial2 g)) - length (rx (serial2 (snd (waitForTag g)))) = n"
    by simp
  moreover from cursor_run_accepts[OF run] have
    "\<exists>pre. map snd (take n (rx (serial2 g))) = pre @ [0xDE, 0xAD, 0xC0, 0xDE]"
    by (simp add: tag_def LDPC_TAG_0_def LDPC_TAG_1_def LDPC_TAG_2_def LDPC_TAG_3_def)
  ultimately show "\<exists>pre. map snd (take (length (rx (serial2 g)) -
        length (rx (serial2 (snd (waitForTag g))))) (rx (serial2 g))) = pre @ [0xDE, 0xAD, 0xC0, 0xDE]"
    by simp
qed

theorem sync_accepts_exact_tag_only_witness:
  "\<not> fst (waitForTag near_miss_example) \<and> fst (waitForTag tag_example) \<and>
   (\<exists>pre. map snd (take (length (rx (serial2 tag_example)) -
                         length (rx (serial2 (snd (waitForTag tag_example)))))
                     (rx (serial2 tag_example))) = pre @ [0xDE, 0xAD, 0xC0, 0xDE])"
proof -
  have a: "map snd (rx (serial2 near_miss_example)) = [0xDE, 0xDE, 0xAD, 0xC0, 0xDE]"
    by (simp add: near_miss_example_def initial_globals_def device_def)
  have b: "fst (waitForTag tag_example)"
    by (simp add: tag_example_def run_simps)
  from sync_accepts_exact_tag_only[of near_miss_example] a
  have "\<not> fst (waitForTag near_miss_example)" by blast
  moreover from sync_accepts_exact_tag_only[of tag_example] b
  have "\<exists>pre. map snd (take (length (rx (serial2 tag_example)) -
                         length (rx (serial2 (snd (waitForTag tag_example)))))
                     (rx (serial2 tag_example))) = pre @ [0xDE, 0xAD, 0xC0, 0xDE]" by blast
  ultimately show ?thesis using b by blast
qed

theorem sync_near_miss_counterexample:
  "\<not> fst (waitForTag near_miss_example)"
proof -
  have "map snd (rx (serial2 near_miss_example)) = [0xDE, 0xDE, 0xAD, 0xC0, 0xDE]"
    by (simp add: near_miss_example_def initial_globals_def device_def)
  from near_miss_rejected[OF this] show ?thesis
    by (simp add: waitForTag_def Let_def)
qed

subsection \<open>Parameters are stored unchecked\<close>

text \<open>
  Claim C3 fails on the code. A device that answers with the four bytes \<open>00 00 00 00\<close>
  makes \<^verbatim>\<open>receiveParameters\<close> return \<^verbatim>\<open>true\<close> with \<open>K = 0\<close> and \<open>N = 0\<close>
  stored, and \<^verbatim>\<open>sendMessageData\<close> then divides by zero.
\<close>

theorem zero_parameters_accepted:
  "fst (waitForTag zero_parameters_example) \<and>
   fst (receiveParameters (snd (waitForTag zero_parameters_example))) \<and>
   K (snd (receiveParameters (snd (waitForTag zero_parameters_example)))) = 0 \<and>
   N (snd (receiveParameters (snd (waitForTag zero_parameters_example)))) = 0 \<and>
   fst (handleEncoding INPUT_TEXT 0 ''A'' [0x41] zero_parameters_example) = DataFailed DivideByZero"
  by (simp add: zero_parameters_example_def run_simps)

subsection \<open>Block payloads and padding\<close>

text \<open>
  Claim C4. Whenever the parameters allow the division (\<open>K \<noteq> 0\<close>) and the message
  occupies the first \<open>ceil(messageBits / 8)\<close> bytes of the buffer passed as
  \<^verbatim>\<open>data\<close>, what \<^verbatim>\<open>sendMessageData\<close> writes to the transport is the
  concatenation of the payloads of the blocks \<open>0, \<dots>, m - 1\<close> for some \<open>m\<close> between
  \<open>min 1 C\<close> and \<open>C\<close>: byte \<open>i\<close> of block \<open>b\<close> is the message byte at index
  \<open>b * ceil(K / 8) + i\<close> when that index is below \<open>ceil(messageBits / 8)\<close> and zero
  otherwise, and no read leaves the message. For \<open>messageBits = 8\<close> and \<open>K = 16\<close> the
  transfer writes the one message byte and one zero byte.
\<close>

theorem block_bytes_padded:
  assumes "K g \<noteq> 0" and "bytes_of messageBits \<le> length data"
  shows "(\<exists>m. min 1 (blocks_of (if calculationBits > 0 then calculationBits else messageBits) (K g)) \<le> m \<and>
            m \<le> blocks_of (if calculationBits > 0 then calculationBits else messageBits) (K g) \<and>
            tx (serial2 (snd (sendMessageData data messageBits calculationBits g))) =
              tx (serial2 g) @
              concat (map (block_payload data messageBits (bytes_of (K g))) [0..<m])) \<and>
         (\<forall>idx. fst (sendMessageData data messageBits calculationBits g)
                  \<noteq> ReadPastMessageBuffer idx)"
proof -
  let ?r = "sendMessageData data messageBits calculationBits g"
  let ?C = "blocks_of (if calculationBits > 0 then calculationBits else messageBits) (K g)"
  have eq: "?r = (fst ?r, snd ?r)" by simp
  from sendMessageData_inv[OF eq assms refl] obtain m n where
    tx: "tx (serial2 (snd ?r)) =
           tx (serial2 g) @ concat (map (block_payload data messageBits (bytes_of (K g))) [0..<m])"
    and res: "(case fst ?r of
           Transferred \<Rightarrow> m = ?C \<and> n = ?C * bytes_of (N g)
         | BlockTimeout b \<Rightarrow> b < ?C \<and> m = Suc b \<and>
             b * bytes_of (N g) \<le> n \<and> n < Suc b * bytes_of (N g) \<and>
             now (serial2 g) + 3000 \<le> now (serial2 (snd ?r))
         | WritePastEncodedBuffer idx \<Rightarrow> 0 < m \<and> m \<le> ?C \<and>
             idx = n \<and> length (encoded_buffer g) \<le> idx
         | _ \<Rightarrow> False)"
    by blast
  from res have m: "min 1 ?C \<le> m \<and> m \<le> ?C"
    by (cases "fst ?r") auto
  from res have nofault: "fst ?r \<noteq> ReadPastMessageBuffer idx" for idx
    by (cases "fst ?r") auto
  from m tx nofault show ?thesis by blast
qed

theorem block_bytes_padded_witness:
  "tx (serial2 (snd (sendMessageData (0x41 # replicate 1023 0) 8 0 padding_example))) = [0x41, 0x00]"
proof -
  have k: "K padding_example \<noteq> 0" by (simp add: padding_example_def)
  have l: "bytes_of (8 :: 16 word) \<le> length ((0x41 :: byte) # replicate 1023 0)"
    by (simp add: bytes_of_def)
  have C: "blocks_of (8 :: 16 word) (K padding_example) = 1"
    by (simp add: padding_example_def blocks_of_def)
  from block_bytes_padded[OF k l, of 0] obtain m where
    "min 1 (blocks_of (8 :: 16 word) (K padding_example)) \<le> m"
    "m \<le> blocks_of (8 :: 16 word) (K padding_example)"
    and tx: "tx (serial2 (snd (sendMessageData (0x41 # replicate 1023 0) 8 0 padding_example))) =
       tx (serial2 padding_example) @
       concat (map (block_payload (0x41 # replicate 1023 0) 8 (bytes_of (K padding_example))) [0..<m])"
    by auto
  with C have m: "m = 1" by simp
  have kb: "bytes_of (K padding_example) = 2" by (simp add: padding_example_def bytes_of_def)
  have two: "[0..<2] = [0, 1]" by (simp add: upt_rec)
  show ?thesis
    unfolding tx m kb
    by (simp add: padding_example_def initial_globals_def device_def block_payload_def
          block_byte_def bytes_of_def two)
qed

subsection \<open>A block timeout ends the transfer\<close>



subsection \<open>The state variable and the phases\<close>

text \<open>
  Claim C6, as amended. No function of the source assigns \<^verbatim>\<open>currentState\<close>: every
  phase and the whole of \<^verbatim>\<open>handleEncoding\<close> leave it as it was, which is
  \<^verbatim>\<open>STATE_IDLE\<close> from power-up on, also after a failed and after a completed session.
  The phases are steps of the control flow of \<^verbatim>\<open>handleEncoding\<close> alone. An empty line
  ends the request before anything is exchanged. Otherwise the sync comes first: when it
  fails the session ends with nothing written to the device and with \<open>K\<close>, \<open>N\<close> and the
  encoded buffer as they were. When it succeeds the two length bytes are written, which
  cannot fail, and the parameters are awaited: when they fail the session ends with these
  two bytes alone written and \<open>K\<close>, \<open>N\<close> and the encoded buffer as they were. The transfer
  starts only when both succeeded, from the state the parameters left, and its outcome is
  the outcome of the session. In the counterexample the state variable is
  \<^verbatim>\<open>STATE_IDLE\<close> after a sync that succeeded and at the end of a completed session.
\<close>

theorem state_variable_never_written:
  fixes g :: globals and mode :: InputMode and manual_message_bits :: "16 word"
    and userInput :: string and msg :: "byte list"
  defines "g1 \<equiv> g\<lparr>lastInputMode := mode, message_bits := of_nat (length msg * 8),
                     message_buffer := msg @ drop (length msg) (message_buffer g)\<rparr>"
  defines "w \<equiv> waitForTag g1"
  defines "len \<equiv> (if mode = INPUT_HEX_MANUAL then manual_message_bits else message_bits (snd w))"
  defines "l \<equiv> sendMessageLength len (snd w)"
  defines "p \<equiv> receiveParameters (snd l)"
  defines "bits \<equiv> (if mode = INPUT_HEX_MANUAL then manual_message_bits else message_bits (snd p))"
  defines "d \<equiv> sendMessageData (message_buffer (snd p)) (message_bits (snd p))
                (if mode = INPUT_HEX_MANUAL then manual_message_bits else 0) (snd p)"
  defines "h \<equiv> handleEncoding mode manual_message_bits userInput msg g"
  shows
  "currentState (snd (waitForTag g)) = currentState g \<and>
   currentState (snd (sendMessageLength b g)) = currentState g \<and>
   currentState (snd (receiveParameters g)) = currentState g \<and>
   currentState (snd (sendMessageData data messageBits calculationBits g)) = currentState g \<and>
   currentState (snd h) = currentState g \<and>
   currentState (snd (handleEncoding mode manual_message_bits userInput msg (initial_globals t)))
     = STATE_IDLE \<and>
   fst h \<noteq> LengthFailed \<and>
   (userInput = [] \<longrightarrow> h = (NoMessage, g\<lparr>lastInputMode := mode\<rparr>)) \<and>
   (userInput \<noteq> [] \<and> \<not> fst w \<longrightarrow>
      fst h = TagFailed \<and> snd h = snd w \<and> tx (serial2 (snd h)) = tx (serial2 g) \<and>
      K (snd h) = K g \<and> N (snd h) = N g \<and> encoded_buffer (snd h) = encoded_buffer g) \<and>
   (userInput \<noteq> [] \<and> fst w \<and> \<not> fst p \<longrightarrow>
      fst h = ParametersFailed \<and> snd h = snd p \<and>
      tx (serial2 (snd h)) = tx (serial2 g) @ [ucast (drop_bit 8 len), ucast (len AND 0xFF)] \<and>
      K (snd h) = K g \<and> N (snd h) = N g \<and> encoded_buffer (snd h) = encoded_buffer g) \<and>
   (userInput \<noteq> [] \<and> fst w \<and> fst p \<longrightarrow>
      tx (serial2 (snd p)) = tx (serial2 g) @ [ucast (drop_bit 8 len), ucast (len AND 0xFF)] \<and>
      encoded_buffer (snd p) = encoded_buffer g \<and>
      snd h = snd d \<and>
      fst h = (if fst d = Transferred
               then Completed (blocks_of bits (K (snd d)))
                      (totalEncodedBytes bits (K (snd d)) (N (snd d)))
               else DataFailed (fst d)))"
proof -
  have cs: "currentState (snd (handleEncoding mode manual_message_bits userInput msg g')) =
              currentState g'" for g'
    by (simp add: handleEncoding_def Let_def waitForTag_state sendMessageLength_state
          receiveParameters_state sendMessageData_state)
  have i: "currentState (initial_globals t) = STATE_IDLE"
    by (simp add: initial_globals_def)
  have g1: "g1 = (g\<lparr>lastInputMode := mode\<rparr>)
       \<lparr>message_bits := of_nat (length msg * 8),
        message_buffer := msg @ drop (length msg) (message_buffer (g\<lparr>lastInputMode := mode\<rparr>))\<rparr>"
    by (simp add: g1_def)
  have unf: "h =
      (if length userInput = 0 then (NoMessage, g\<lparr>lastInputMode := mode\<rparr>)
       else if \<not> fst w then (TagFailed, snd w)
       else if \<not> fst l then (LengthFailed, snd l)
       else if \<not> fst p then (ParametersFailed, snd p)
       else if fst d \<noteq> Transferred then (DataFailed (fst d), snd d)
       else (Completed (blocks_of bits (K (snd d))) (totalEncodedBytes bits (K (snd d)) (N (snd d))),
             snd d))"
    unfolding h_def handleEncoding_def Let_def g1 w_def len_def l_def p_def d_def bits_def
    by (rule refl)
  have fl: "fst l" and txl: "tx (serial2 (snd l)) =
      tx (serial2 (snd w)) @ [ucast (drop_bit 8 len), ucast (len AND 0xFF)]"
    unfolding l_def using sendMessageLength_tx[of len "snd w"] by simp_all
  have wfr: "snd w = g1\<lparr>serial2 := serial2 (snd w)\<rparr>"
    by (simp add: w_def waitForTag_def Let_def)
  have lfr: "snd l = (snd w)\<lparr>serial2 := serial2 (snd l)\<rparr>"
    by (simp add: l_def sendMessageLength_def Let_def)
  have pfr: "snd p = (snd l)\<lparr>K := K (snd p), N := N (snd p), serial2 := serial2 (snd p)\<rparr>"
    unfolding p_def receiveParameters_def by (rule receiveParameters_loop_frame)
  have txw: "tx (serial2 (snd w)) = tx (serial2 g)"
    unfolding w_def using waitForTag_tx[of g1] by (simp add: g1_def)
  have Kw: "K (snd w) = K g" "N (snd w) = N g" "encoded_buffer (snd w) = encoded_buffer g"
    by (subst wfr, simp add: g1_def)+
  have Kl: "K (snd l) = K g" "N (snd l) = N g" "encoded_buffer (snd l) = encoded_buffer g"
    by (subst lfr, simp add: Kw)+
  have encp: "encoded_buffer (snd p) = encoded_buffer g"
    by (subst pfr) (simp add: Kl)
  note pe = receiveParameters_effect[of "snd l", folded p_def]
  from pe have txp: "tx (serial2 (snd p)) =
      tx (serial2 g) @ [ucast (drop_bit 8 len), ucast (len AND 0xFF)]"
    by (simp add: txl txw)
  from pe have Kp: "\<not> fst p \<Longrightarrow> K (snd p) = K g \<and> N (snd p) = N g"
    by (simp add: Kl)
  have c6: "fst h \<noteq> LengthFailed"
    by (simp add: unf fl)
  have c7: "userInput = [] \<longrightarrow> h = (NoMessage, g\<lparr>lastInputMode := mode\<rparr>)"
    by (simp add: unf)
  have c8: "userInput \<noteq> [] \<and> \<not> fst w \<longrightarrow>
      fst h = TagFailed \<and> snd h = snd w \<and> tx (serial2 (snd h)) = tx (serial2 g) \<and>
      K (snd h) = K g \<and> N (snd h) = N g \<and> encoded_buffer (snd h) = encoded_buffer g"
    by (simp add: unf txw Kw)
  have c9: "userInput \<noteq> [] \<and> fst w \<and> \<not> fst p \<longrightarrow>
      fst h = ParametersFailed \<and> snd h = snd p \<and>
      tx (serial2 (snd h)) = tx (serial2 g) @ [ucast (drop_bit 8 len), ucast (len AND 0xFF)] \<and>
      K (snd h) = K g \<and> N (snd h) = N g \<and> encoded_buffer (snd h) = encoded_buffer g"
    using Kp by (simp add: unf fl txp encp)
  have c10: "userInput \<noteq> [] \<and> fst w \<and> fst p \<longrightarrow>
      tx (serial2 (snd p)) = tx (serial2 g) @ [ucast (drop_bit 8 len), ucast (len AND 0xFF)] \<and>
      encoded_buffer (snd p) = encoded_buffer g \<and>
      snd h = snd d \<and>
      fst h = (if fst d = Transferred
               then Completed (blocks_of bits (K (snd d)))
                      (totalEncodedBytes bits (K (snd d)) (N (snd d)))
               else DataFailed (fst d))"
    by (simp add: unf fl txp encp)
  show ?thesis
    apply (intro conjI)
              apply (rule waitForTag_state)
             apply (rule sendMessageLength_state)
            apply (rule receiveParameters_state)
           apply (rule sendMessageData_state)
          apply (simp only: h_def cs)
         apply (simp only: cs i)
        apply (rule c6)
       apply (rule c7)
      apply (rule c8)
     apply (rule c9)
    apply (rule c10)
    done
qed

theorem state_variable_never_written_witness:
  "handleEncoding INPUT_TEXT 0 [] [] tag_example =
     (NoMessage, tag_example\<lparr>lastInputMode := INPUT_TEXT\<rparr>) \<and>
   fst (handleEncoding INPUT_TEXT 0 ''A'' [0x41] silent_example) = TagFailed \<and>
   tx (serial2 (snd (handleEncoding INPUT_TEXT 0 ''A'' [0x41] silent_example))) = [] \<and>
   fst (handleEncoding INPUT_TEXT 0 ''A'' [0x41] tag_example) = ParametersFailed \<and>
   tx (serial2 (snd (handleEncoding INPUT_TEXT 0 ''A'' [0x41] tag_example))) = [0x00, 0x08] \<and>
   currentState (snd (handleEncoding INPUT_TEXT 0 ''A'' [0x41] tag_example)) = STATE_IDLE"
proof -
  let ?s1 = "silent_example\<lparr>lastInputMode := INPUT_TEXT, message_bits := of_nat (length [0x41 :: byte] * 8),
               message_buffer := [0x41] @ drop (length [0x41 :: byte]) (message_buffer silent_example)\<rparr>"
  let ?t1 = "tag_example\<lparr>lastInputMode := INPUT_TEXT, message_bits := of_nat (length [0x41 :: byte] * 8),
               message_buffer := [0x41] @ drop (length [0x41 :: byte]) (message_buffer tag_example)\<rparr>"
  let ?len = "if INPUT_TEXT = INPUT_HEX_MANUAL then 0 else message_bits (snd (waitForTag ?t1))"
  have a: "handleEncoding INPUT_TEXT 0 [] [] tag_example =
             (NoMessage, tag_example\<lparr>lastInputMode := INPUT_TEXT\<rparr>)"
    using state_variable_never_written[where g = tag_example and mode = INPUT_TEXT
            and manual_message_bits = 0 and userInput = "[]" and msg = "[]"]
    by simp
  have "\<not> fst (waitForTag ?s1)"
    by (rule waitForTag_silent) (simp add: silent_example_def initial_globals_def device_def)
  with state_variable_never_written[where g = silent_example and mode = INPUT_TEXT
            and manual_message_bits = 0 and userInput = "''A''" and msg = "[0x41]"]
  have b: "fst (handleEncoding INPUT_TEXT 0 ''A'' [0x41] silent_example) = TagFailed"
    "tx (serial2 (snd (handleEncoding INPUT_TEXT 0 ''A'' [0x41] silent_example))) =
       tx (serial2 silent_example)"
    by blast+
  have w: "fst (waitForTag ?t1)" and len: "?len = 8"
    and rx: "length (rx (serial2 (snd (sendMessageLength ?len (snd (waitForTag ?t1)))))) < 4"
    by (simp_all add: tag_example_def run_simps)
  from rx have "\<not> fst (receiveParameters (snd (sendMessageLength ?len (snd (waitForTag ?t1)))))"
    by (rule receiveParameters_starved)
  with w state_variable_never_written[where g = tag_example and mode = INPUT_TEXT
            and manual_message_bits = 0 and userInput = "''A''" and msg = "[0x41]"]
  have c: "fst (handleEncoding INPUT_TEXT 0 ''A'' [0x41] tag_example) = ParametersFailed"
    "tx (serial2 (snd (handleEncoding INPUT_TEXT 0 ''A'' [0x41] tag_example))) =
       tx (serial2 tag_example) @ [ucast (drop_bit 8 ?len), ucast (?len AND 0xFF)]"
    "currentState (snd (handleEncoding INPUT_TEXT 0 ''A'' [0x41] tag_example)) =
       currentState tag_example"
    by blast+
  have tx0: "tx (serial2 silent_example) = []" "tx (serial2 tag_example) = []"
    "currentState tag_example = STATE_IDLE"
    by (simp_all add: silent_example_def tag_example_def initial_globals_def device_def)
  from a b c show ?thesis
    by (simp only: tx0 len) simp
qed

theorem state_variable_counterexample:
  "fst (waitForTag manual_example) \<and>
   currentState (snd (waitForTag manual_example)) = STATE_IDLE \<and>
   fst (handleEncoding INPUT_HEX_MANUAL 16 ''AB'' [0xAB] manual_example) = Completed 2 4 \<and>
   currentState (snd (handleEncoding INPUT_HEX_MANUAL 16 ''AB'' [0xAB] manual_example)) = STATE_IDLE"
  by (simp add: manual_example_def run_simps)

subsection \<open>The cursor of the sync detection\<close>



subsection \<open>Parameter reception\<close>

text \<open>
  Claim C8, as amended. \<^verbatim>\<open>receiveParameters\<close> polls every 10 ms for 3000 ms, so the
  last poll is 2990 ms after the call. When four bytes have reached the receive buffer by
  then, it returns \<^verbatim>\<open>true\<close>, \<open>K\<close> is the first two bytes and \<open>N\<close> the next two, high
  byte first, and exactly these four bytes are consumed; otherwise it returns
  \<^verbatim>\<open>false\<close> after at least 3000 ms, with nothing consumed and \<open>K\<close> and \<open>N\<close> as they
  were. So four bytes that are available before the 3000 ms are over do not always
  succeed: in the counterexample the fourth byte arrives 2995 ms after the call, and
  \<^verbatim>\<open>receiveParameters\<close> returns \<^verbatim>\<open>false\<close> with all four bytes left in the buffer.
\<close>

theorem parameters_big_endian:
  "if ready_at (now (serial2 g) + 2990) (serial2 g)
   then fst (receiveParameters g) \<and>
        unat (K (snd (receiveParameters g))) =
          256 * unat (snd (rx (serial2 g) ! 0)) + unat (snd (rx (serial2 g) ! 1)) \<and>
        unat (N (snd (receiveParameters g))) =
          256 * unat (snd (rx (serial2 g) ! 2)) + unat (snd (rx (serial2 g) ! 3)) \<and>
        rx (serial2 (snd (receiveParameters g))) = drop 4 (rx (serial2 g)) \<and>
        tx (serial2 (snd (receiveParameters g))) = tx (serial2 g)
   else \<not> fst (receiveParameters g) \<and>
        K (snd (receiveParameters g)) = K g \<and> N (snd (receiveParameters g)) = N g \<and>
        rx (serial2 (snd (receiveParameters g))) = rx (serial2 g) \<and>
        tx (serial2 (snd (receiveParameters g))) = tx (serial2 g) \<and>
        now (serial2 g) + 3000 \<le> now (serial2 (snd (receiveParameters g)))"
proof (cases "ready_at (now (serial2 g) + 2990) (serial2 g)")
  case True
  have "ready_at (now (serial2 g) + 10 * 299) (serial2 g)"
    and "now (serial2 g) + 10 * 299 < now (serial2 g) + 3000"
    using True by simp_all
  from receiveParameters_loop_success[OF this] True show ?thesis
    by (auto simp: receiveParameters_def unat_be16)
next
  case False
  from receiveParameters_loop_timeout[OF False] False show ?thesis
    by (auto simp: receiveParameters_def)
qed

theorem parameters_big_endian_witness:
  "fst (receiveParameters parameters_example) \<and>
   unat (K (snd (receiveParameters parameters_example))) = 4096 \<and>
   unat (N (snd (receiveParameters parameters_example))) = 8192 \<and>
   rx (serial2 (snd (receiveParameters parameters_example))) = [(0, 0x99)]"
proof -
  have r: "ready_at (now (serial2 parameters_example) + 2990) (serial2 parameters_example)"
    by (simp add: parameters_example_def initial_globals_def device_def ready_at_def)
  have rx: "rx (serial2 parameters_example) =
              [(0, 0x10), (0, 0x00), (0, 0x20), (0, 0x00), (0, 0x99)]"
    by (simp add: parameters_example_def initial_globals_def device_def)
  from parameters_big_endian[of parameters_example] r show ?thesis
    by (simp add: rx)
qed

theorem parameters_late_byte_counterexample:
  "now (serial2 late_parameters_example) = 0 \<and>
   ready_at 2995 (serial2 late_parameters_example) \<and>
   \<not> fst (receiveParameters late_parameters_example) \<and>
   rx (serial2 (snd (receiveParameters late_parameters_example))) =
     rx (serial2 late_parameters_example)"
proof -
  let ?g = late_parameters_example
  have n: "now (serial2 ?g) = 0" and r: "ready_at 2995 (serial2 ?g)"
    and "\<not> ready_at (now (serial2 ?g) + 2990) (serial2 ?g)"
    by (simp_all add: late_parameters_example_def initial_globals_def device_def ready_at_def)
  from receiveParameters_loop_timeout[OF this(3)] n r show ?thesis
    by (auto simp: receiveParameters_def)
qed

subsection \<open>Writes past the encoded buffer\<close>

text \<open>
  Claim C9 fails on the code. With \<open>K = 8\<close> and \<open>N = 16392\<close> the device owes 2049
  bytes for the only block of a one-byte message, and the last of them is stored at index
  2048 of the 2048-byte buffer.
\<close>

theorem encoded_buffer_overflow:
  "fst (sendMessageData (0x41 # replicate 1023 0) 8 0 overflow_example)
     = WritePastEncodedBuffer 2048"
proof -
  let ?g1 = "overflow_example\<lparr>serial2 :=
               delay 10 (serial2_write 0x41 (serial2 overflow_example))\<rparr>"
  have "fst (receiveBlock (now (serial2 overflow_example) + 10) 0 2049 0 ?g1) =
          Some (WritePastEncodedBuffer (length (encoded_buffer ?g1)))"
    by (rule receiveBlock_overflow[where d = 2048])
       (simp_all add: overflow_example_def initial_globals_def device_def MAX_MESSAGE_LENGTH_def
          serial2_write_def delay_def)
  moreover have "length (encoded_buffer ?g1) = 2048"
    by (simp add: overflow_example_def initial_globals_def MAX_MESSAGE_LENGTH_def)
  ultimately have rb: "fst (receiveBlock (now (serial2 overflow_example) + 10) 0 2049 0 ?g1) =
      Some (WritePastEncodedBuffer 2048)"
    by simp
  have sb: "sendBlockBytes (0x41 # replicate 1023 0) 8 0 (Suc 0) 0 overflow_example = (None, ?g1)"
    by (simp add: sendBlockBytes.simps u16_def bytes_of_def Let_def)
  have par: "K overflow_example = 8" "N overflow_example = 16392" "N ?g1 = 16392"
    "now (serial2 ?g1) = 10"
    by (simp_all add: overflow_example_def initial_globals_def device_def serial2_write_def)
  show ?thesis
    by (simp add: sendMessageData_def sendBlocks.simps[of _ _ _ _ 0] Let_def par bytes_of_def
          blocks_of_def u16_def sb rb)
qed

subsection \<open>The redisplay in manual mode\<close>

text \<open>
  Claim C10 fails on the code. In the mode with a manual length the completion display
  counts blocks from \<^verbatim>\<open>manual_message_bits\<close> and menu option 5 from
  \<^verbatim>\<open>message_bits\<close>: for a one-byte message with manual length 16, \<open>K = 8\<close> and
  \<open>N = 16\<close>, the first prints 4 encoded bytes and the second 2.
\<close>

theorem redisplay_differs_in_manual_mode:
  "fst (handleEncoding INPUT_HEX_MANUAL 16 ''AB'' [0xAB] manual_example) = Completed 2 4 \<and>
   showLastResults (snd (handleEncoding INPUT_HEX_MANUAL 16 ''AB'' [0xAB] manual_example)) = Some 2"
  by (simp add: manual_example_def showLastResults_def run_simps)

end
